theory Spec2Isabelle
  imports Complex_Main "HOL-Library.Word" "HOL-Library.Log_Nat" "HOL-Library.Multiset"
begin

section \<open>Cycle counts and x87 extended-precision arithmetic\<close>

text \<open>
  Both benchmark programs are written for gcc on x86-64 (inline \<^verbatim>\<open>clflush\<close>, \<^verbatim>\<open>rdtsc\<close>,
  \<^verbatim>\<open>cpuid\<close>). A cycle count is a \<^verbatim>\<open>uint64_t\<close>: a 64-bit word whose subtraction wraps.
  On that platform \<^verbatim>\<open>long double\<close> is the x87 extended format with a 64-bit significand and
  \<^verbatim>\<open>double\<close> is IEEE binary64 with a 53-bit significand, both rounding to nearest, ties to
  even. A finite floating-point value is modelled by the rational number it denotes, and each
  arithmetic operation of the source is the exact operation followed by \<open>fp_round\<close> to the
  precision of its type. The exponent range is not modelled: the sums, means, differences
  and squares that the programs compute from 64-bit counts and from trial counts of at most
  200000 are zero or lie between \<open>2 ^ - 200\<close> and \<open>2 ^ 150\<close> in magnitude, far inside
  the range of both formats, so no operation overflows or underflows.
  The outcomes of a division by zero (an infinity or a NaN) are modelled where the source
  can reach them, in \<open>fpval\<close> below.
\<close>

type_synonym uint64 = "64 word"

text \<open>\<open>floor_log2 x\<close> is the binary exponent of a positive \<open>x\<close>: \<open>2 ^ e \<le> x < 2 ^ (e + 1)\<close>.\<close>

definition floor_log2 :: "rat \<Rightarrow> int" where
  "floor_log2 x =
     (let (n, d) = quotient_of x; e = bitlen n - bitlen d
      in if x < 2 powi e then e - 1 else e)"

definition round_half_even :: "rat \<Rightarrow> int" where
  "round_half_even r =
     (let f = \<lfloor>r\<rfloor>; d = r - of_int f
      in if d < 1 / 2 then f else if 1 / 2 < d then f + 1
         else if even f then f else f + 1)"

text \<open>Rounding to \<open>p\<close> significant bits: the value is scaled by its unit in the last place,
  rounded to an integer, and scaled back.\<close>

definition fp_round :: "nat \<Rightarrow> rat \<Rightarrow> rat" where
  "fp_round p x =
     (if x = 0 then 0
      else let a = \<bar>x\<bar>; u = 2 powi (floor_log2 a - int p + 1)
           in sgn x * (of_int (round_half_even (a / u)) * u))"

definition ld :: "rat \<Rightarrow> rat" where
  "ld = fp_round 64"

definition dbl :: "rat \<Rightarrow> rat" where
  "dbl = fp_round 53"

text \<open>The conversion \<^verbatim>\<open>(long double)results[i]\<close>: every 64-bit count fits the 64-bit
  significand, so the conversion is exact.\<close>

definition ld_of_uint64 :: "uint64 \<Rightarrow> rat" where
  "ld_of_uint64 w = of_int (uint w)"

section \<open>Summary statistics (\<^verbatim>\<open>memtest_allsizes.c\<close>, lines 176 to 199)\<close>

text \<open>The comparator handed to \<^verbatim>\<open>qsort\<close>.\<close>

definition cmp_uint64 :: "uint64 \<Rightarrow> uint64 \<Rightarrow> int" where
  "cmp_uint64 va vb = (if va < vb then - 1 else if vb < va then 1 else 0)"

text \<open>
  \<^verbatim>\<open>qsort\<close> is the C library's: the standard fixes its result (the array in ascending order
  of the comparator) and not its algorithm. \<open>qsort_result\<close> is that contract;
  \<open>qsort\<close> is one function meeting it, an insertion sort driven by the comparator.
\<close>

definition qsort_result :: "('a \<Rightarrow> 'a \<Rightarrow> int) \<Rightarrow> 'a list \<Rightarrow> 'a list \<Rightarrow> bool" where
  "qsort_result compar input output =
     (mset output = mset input \<and> sorted_wrt (\<lambda>a b. compar a b \<le> 0) output)"

fun qsort_insert :: "('a \<Rightarrow> 'a \<Rightarrow> int) \<Rightarrow> 'a \<Rightarrow> 'a list \<Rightarrow> 'a list" where
  "qsort_insert compar x [] = [x]"
| "qsort_insert compar x (y # ys) =
     (if compar x y \<le> 0 then x # y # ys else y # qsort_insert compar x ys)"

fun qsort :: "('a \<Rightarrow> 'a \<Rightarrow> int) \<Rightarrow> 'a list \<Rightarrow> 'a list" where
  "qsort compar [] = []"
| "qsort compar (x # xs) = qsort_insert compar x (qsort compar xs)"

text \<open>
  \<^verbatim>\<open>for (i = 0; i < REPEAT; i++) sum += (long double)results[i];\<close>
  The array \<open>results\<close> holds \<open>REPEAT\<close> elements, so every index read is in range.
\<close>

function sum_loop :: "uint64 list \<Rightarrow> nat \<Rightarrow> nat \<Rightarrow> rat \<Rightarrow> rat" where
  "sum_loop results REPEAT i acc =
     (if i < REPEAT
      then sum_loop results REPEAT (i + 1) (ld (acc + ld_of_uint64 (results ! i)))
      else acc)"
  by pat_completeness auto
termination
  by (relation "measure (\<lambda>(results, REPEAT, i, acc). REPEAT - i)") auto

declare sum_loop.simps [simp del]

text \<open>
  \<^verbatim>\<open>long double d = (long double)results[i] - mean; ssum += d * d;\<close>
  The difference, the square and the accumulation are each rounded to long double.
\<close>

function ssum_loop :: "uint64 list \<Rightarrow> nat \<Rightarrow> rat \<Rightarrow> nat \<Rightarrow> rat \<Rightarrow> rat" where
  "ssum_loop results REPEAT mean i ssum =
     (if i < REPEAT
      then (let d = ld (ld_of_uint64 (results ! i) - mean)
            in ssum_loop results REPEAT mean (i + 1) (ld (ssum + ld (d * d))))
      else ssum)"
  by pat_completeness auto
termination
  by (relation "measure (\<lambda>(results, REPEAT, mean, i, ssum). REPEAT - i)") auto

declare ssum_loop.simps [simp del]

text \<open>
  The source calls \<^verbatim>\<open>sqrt\<close>, the double-precision square root, on a long double (it does
  not include \<^verbatim>\<open>math.h\<close>; gcc resolves the name to its built-in of the library's type). The
  argument is converted to double, the root is correctly rounded to double, as IEEE 754
  requires of \<^verbatim>\<open>sqrt\<close>, and the result is stored back into a long double unchanged.
  \<open>isqrt\<close> is the integer square root; \<open>sqrt_double\<close> scales its argument so that the
  root has 53 integer bits, and rounds the root to nearest by comparing with the square of
  the midpoint. Its argument is a mean of squares and never negative.
\<close>

function isqrt :: "int \<Rightarrow> int" where
  "isqrt n =
     (if n < 2 then n
      else (let r = 2 * isqrt (n div 4) in if (r + 1) * (r + 1) \<le> n then r + 1 else r))"
  by pat_completeness auto
termination
  by (relation "measure nat") auto

declare isqrt.simps [simp del]

definition sqrt_double :: "rat \<Rightarrow> rat" where
  "sqrt_double x =
     (if x \<le> 0 then 0
      else let e = floor_log2 x div 2;
               k = 52 - e;
               y = x * 2 powi (2 * k);
               m = isqrt \<lfloor>y\<rfloor>;
               h = of_int (m * m + m) + 1 / 4
           in of_int (if y < h then m else if h < y then m + 1
                      else if even m then m else m + 1) * 2 powi (- k))"

record summary =
  trials :: nat
  mean :: rat
  stddev :: rat
  minv :: uint64
  maxv :: uint64
  median :: uint64

text \<open>
  Lines 186 to 199, given the array \<open>sorted_arr\<close> that \<^verbatim>\<open>qsort\<close> left. Both branches of the
  source's conditional for the median read index \<^verbatim>\<open>REPEAT / 2\<close>.
\<close>

definition compute_stats :: "nat \<Rightarrow> uint64 list \<Rightarrow> uint64 list \<Rightarrow> summary" where
  "compute_stats REPEAT results sorted_arr =
     (let sum = sum_loop results REPEAT 0 0;
          mean = ld (sum / of_nat REPEAT);
          ssum = ssum_loop results REPEAT mean 0 0;
          stddev = sqrt_double (dbl (ld (ssum / of_nat REPEAT)));
          minv = sorted_arr ! 0;
          maxv = sorted_arr ! (REPEAT - 1);
          median = (if REPEAT mod 2 = 0 then sorted_arr ! (REPEAT div 2)
                    else sorted_arr ! (REPEAT div 2))
      in \<lparr>trials = REPEAT, mean = mean, stddev = stddev,
          minv = minv, maxv = maxv, median = median\<rparr>)"

text \<open>
  Lines 178 to 199: \<^verbatim>\<open>memcpy\<close> copies \<open>REPEAT\<close> elements of \<open>results\<close> into \<open>sorted\<close>,
  \<^verbatim>\<open>qsort\<close> sorts the copy, and the statistics are computed.
\<close>

definition summarize :: "nat \<Rightarrow> uint64 list \<Rightarrow> summary" where
  "summarize REPEAT results =
     compute_stats REPEAT results (qsort cmp_uint64 (take REPEAT results))"

subsection \<open>The mean and the variance over the rationals\<close>



section \<open>Row-policy classifier (\<^verbatim>\<open>dram_row_policy.c\<close>)\<close>

text \<open>
  A long-double quotient is finite unless the divisor is zero: then it is an infinity with
  the sign of the dividend, or a NaN for \<open>0 / 0\<close>. The means the program divides are sums of
  unsigned counts divided by a positive constant, so a zero divisor is \<open>+0\<close>.
\<close>

datatype fpval = Finite rat | PosInf | NegInf | NaN

definition ld_div :: "rat \<Rightarrow> rat \<Rightarrow> fpval" where
  "ld_div a b =
     (if b = 0 then (if 0 < a then PosInf else if a < 0 then NegInf else NaN)
      else Finite (ld (a / b)))"

text \<open>The cast \<^verbatim>\<open>(double)\<close> rounds a finite value to 53 bits and keeps infinities and NaN.\<close>

fun to_double :: "fpval \<Rightarrow> fpval" where
  "to_double (Finite x) = Finite (dbl x)"
| "to_double v = v"

text \<open>The comparison \<^verbatim>\<open>v > c\<close> with a finite constant: false for a NaN.\<close>

fun fp_gt :: "fpval \<Rightarrow> rat \<Rightarrow> bool" where
  "fp_gt (Finite x) c = (c < x)"
| "fp_gt PosInf c = True"
| "fp_gt NegInf c = False"
| "fp_gt NaN c = False"

datatype policy = OpenRow | ClosedRow

text \<open>\<^verbatim>\<open>double speedup_ratio = (double)(mean_first / mean_second);\<close>\<close>

definition speedup_ratio :: "rat \<Rightarrow> rat \<Rightarrow> fpval" where
  "speedup_ratio mean_first mean_second = to_double (ld_div mean_first mean_second)"

text \<open>\<^verbatim>\<open>if (speedup_ratio > 1.5)\<close> prints the open-row conclusion, \<^verbatim>\<open>else\<close> the closed-row one.\<close>

definition classify :: "rat \<Rightarrow> rat \<Rightarrow> policy" where
  "classify mean_first mean_second =
     (if fp_gt (speedup_ratio mean_first mean_second) (3 / 2) then OpenRow else ClosedRow)"

text \<open>
  Lines 111 to 140 of \<^verbatim>\<open>main\<close>: the per-array accumulation
  \<^verbatim>\<open>sum_first += first_access[i]\<close> is the loop \<open>sum_loop\<close> above, run over
  \<^verbatim>\<open>TEST_ITERATIONS\<close> elements; the means are the sums divided by that constant.
\<close>

definition TEST_ITERATIONS :: nat where
  "TEST_ITERATIONS = 100000"

definition row_policy :: "uint64 list \<Rightarrow> uint64 list \<Rightarrow> policy" where
  "row_policy first_access second_access =
     (let sum_first = sum_loop first_access TEST_ITERATIONS 0 0;
          sum_second = sum_loop second_access TEST_ITERATIONS 0 0;
          mean_first = ld (sum_first / of_nat TEST_ITERATIONS);
          mean_second = ld (sum_second / of_nat TEST_ITERATIONS)
      in classify mean_first mean_second)"

section \<open>Cache flushing (\<^verbatim>\<open>flush_buffer\<close>, the same text in both programs)\<close>

text \<open>
  What \<^verbatim>\<open>flush_buffer\<close> does to the machine is the sequence of cache instructions it
  issues. Addresses and \<^verbatim>\<open>size_t\<close> offsets are 64-bit words; \<^verbatim>\<open>off += line\<close> wraps.
\<close>

datatype cache_op = Clflush uint64 | Mfence

text \<open>
  \<^verbatim>\<open>for (size_t off = 0; off < size; off += line) clflush_line((void *)(p + off));\<close>
  When the size exceeds \<open>2 ^ 64 - 64\<close> the offset wraps before it reaches the size and the
  loop does not end; the loop is therefore a partial function, \<open>None\<close> when it runs forever.
\<close>

partial_function (option) flush_loop ::
  "uint64 \<Rightarrow> uint64 \<Rightarrow> uint64 \<Rightarrow> cache_op list \<Rightarrow> cache_op list option" where
  "flush_loop p sz off issued =
     (if off < sz then flush_loop p sz (off + 64) (issued @ [Clflush (p + off)])
      else Some issued)"

declare flush_loop.simps [code]

definition flush_buffer :: "uint64 \<Rightarrow> uint64 \<Rightarrow> cache_op list option" where
  "flush_buffer buf sz =
     (case flush_loop buf sz 0 [] of
        None \<Rightarrow> None
      | Some issued \<Rightarrow> Some (issued @ [Mfence]))"

text \<open>\<^verbatim>\<open>clflush\<close> invalidates the 64-byte line that contains its operand: the line of an
  address is the address with its low six bits cleared.\<close>

definition line_of :: "uint64 \<Rightarrow> uint64" where
  "line_of a = a - (a mod 64)"

definition flushed_lines :: "cache_op list \<Rightarrow> uint64 set" where
  "flushed_lines issued = {line_of a | a. Clflush a \<in> set issued}"

section \<open>Size selection (\<^verbatim>\<open>memtest_allsizes.c\<close>, lines 69 to 90)\<close>

definition exponents :: "int list" where
  "exponents = [6, 7, 8, 9, 10, 11, 12, 13, 14, 15, 16, 20, 21]"

definition n_sizes :: int where
  "n_sizes = int (length exponents)"

text \<open>
  \<^verbatim>\<open>atoi\<close> of the C library the program is linked with, glibc on x86-64 Linux: it is
  \<^verbatim>\<open>strtol\<close> in base 10 with the result converted to \<^verbatim>\<open>int\<close>. Leading white space is
  skipped, an optional sign is read, and the longest run of decimal digits that follows is
  the value of the numeral (0 when there is none). \<^verbatim>\<open>strtol\<close> replaces a value outside the
  range of the 64-bit \<^verbatim>\<open>long\<close> by the nearest bound, and the conversion to \<^verbatim>\<open>int\<close> keeps the
  low 32 bits as a two's-complement number. No range is checked and nothing is reported.
\<close>

definition isspace :: "char \<Rightarrow> bool" where
  "isspace c = (c \<in> set [CHR '' '', CHR 0x09, CHR 0x0A, CHR 0x0B, CHR 0x0C, CHR 0x0D])"

definition isdigit :: "char \<Rightarrow> bool" where
  "isdigit c = (48 \<le> (of_char c :: nat) \<and> (of_char c :: nat) \<le> 57)"

definition digit_value :: "char \<Rightarrow> nat" where
  "digit_value c = of_char c - 48"

fun digits_value :: "int \<Rightarrow> string \<Rightarrow> int" where
  "digits_value acc [] = acc"
| "digits_value acc (c # cs) =
     (if isdigit c then digits_value (acc * 10 + int (digit_value c)) cs else acc)"

definition numeral_value :: "string \<Rightarrow> int" where
  "numeral_value s =
     (let s1 = dropWhile isspace s;
          neg = (s1 \<noteq> [] \<and> hd s1 = CHR ''-'');
          s2 = (if s1 \<noteq> [] \<and> (hd s1 = CHR ''-'' \<or> hd s1 = CHR ''+'') then tl s1 else s1)
      in if neg then - digits_value 0 s2 else digits_value 0 s2)"

definition strtol :: "string \<Rightarrow> int" where
  "strtol s = max (- (2 ^ 63)) (min (2 ^ 63 - 1) (numeral_value s))"

definition int_of_long :: "int \<Rightarrow> int" where
  "int_of_long v = (v + 2 ^ 31) mod 2 ^ 32 - 2 ^ 31"

definition atoi :: "string \<Rightarrow> int" where
  "atoi s = int_of_long (strtol s)"

text \<open>
  \<^verbatim>\<open>for (int i = 0; i < n_sizes; i++) if (exponents[i] == x) { found = i; break; }\<close>
  with \<open>found\<close> starting at \<open>- 1\<close>.
\<close>

function find_exponent :: "int \<Rightarrow> int \<Rightarrow> int" where
  "find_exponent x i =
     (if i < n_sizes
      then (if exponents ! nat i = x then i else find_exponent x (i + 1))
      else - 1)"
  by pat_completeness auto
termination
  by (relation "measure (\<lambda>(x, i). nat (n_sizes - i))") auto

declare find_exponent.simps [simp del]

text \<open>
  Lines 73 to 90: the pair \<open>(start_idx, end_idx)\<close> after the optional argument was read.
  \<open>argv\<close> is the argument vector with the program name first, \<open>argc\<close> its length.
\<close>

definition select_range :: "string list \<Rightarrow> int \<times> int" where
  "select_range argv =
     (if 2 \<le> length argv
      then (let x = atoi (argv ! 1)
            in if x \<noteq> 0
               then (let found = find_exponent x 0
                     in if 0 \<le> found then (found, found) else (0, n_sizes - 1))
               else (0, n_sizes - 1))
      else (0, n_sizes - 1))"

text \<open>Lines 102 to 114: the buffer size \<^verbatim>\<open>(size_t)1 << x\<close> and the trial count chosen for it.\<close>

definition size_of_exponent :: "int \<Rightarrow> uint64" where
  "size_of_exponent x = push_bit (nat x) 1"

definition repeat_for :: "uint64 \<Rightarrow> nat" where
  "repeat_for sz =
     (if sz \<le> 4096 then 200000
      else if sz \<le> 65536 then 50000
      else if sz \<le> 262144 then 20000
      else if sz \<le> 1048576 then 8000
      else 2000)"

section \<open>CSV export (\<^verbatim>\<open>memtest_allsizes.c\<close>, lines 161 to 174)\<close>

text \<open>The conversions \<^verbatim>\<open>%zu\<close> and \<^verbatim>\<open>%PRIu64\<close> print an unsigned value in decimal without
  leading zeros, \<^verbatim>\<open>%d\<close> a signed one with a minus sign when negative.\<close>

definition digit_char :: "nat \<Rightarrow> char" where
  "digit_char d = char_of (48 + d)"

function show_nat :: "nat \<Rightarrow> string" where
  "show_nat n = (if n < 10 then [digit_char n] else show_nat (n div 10) @ [digit_char (n mod 10)])"
  by pat_completeness auto
termination
  by (relation "measure id") auto

declare show_nat.simps [simp del]

definition show_int :: "int \<Rightarrow> string" where
  "show_int i = (if i < 0 then CHR ''-'' # show_nat (nat (- i)) else show_nat (nat i))"

text \<open>
  \<^verbatim>\<open>snprintf(fname, sizeof(fname), "memcpy_2pow%d_%zub.csv", x, size);\<close>
  with \<^verbatim>\<open>char fname[256]\<close>: at most 255 characters are kept.
\<close>

definition csv_name :: "int \<Rightarrow> uint64 \<Rightarrow> string" where
  "csv_name x sz =
     take 255 (''memcpy_2pow'' @ show_int x @ ''_'' @ show_nat (unat sz) @ ''b.csv'')"

text \<open>
  The file system is a map from names to contents. \<^verbatim>\<open>fopen(fname, "w")\<close> creates the file
  or truncates it to length zero; each \<^verbatim>\<open>fprintf\<close> appends to the stream's end. The source
  does not check the result of \<^verbatim>\<open>fprintf\<close> or \<^verbatim>\<open>fclose\<close>, and the model has no failing write.
\<close>

type_synonym filesystem = "string \<rightharpoonup> string"

definition fopen_w :: "filesystem \<Rightarrow> string \<Rightarrow> filesystem" where
  "fopen_w fs fname = fs(fname \<mapsto> [])"

definition fprintf :: "filesystem \<Rightarrow> string \<Rightarrow> string \<Rightarrow> filesystem" where
  "fprintf fs fname text =
     fs(fname \<mapsto> (case fs fname of None \<Rightarrow> [] | Some old \<Rightarrow> old) @ text)"

definition newline :: char where
  "newline = CHR 0x0A"

text \<open>\<^verbatim>\<open>fprintf(f, "%zu,%" PRIu64 "\n", i, results[i]);\<close>\<close>

definition csv_row :: "nat \<Rightarrow> uint64 \<Rightarrow> string" where
  "csv_row i v = show_nat i @ '','' @ show_nat (unat v) @ [newline]"

function write_rows :: "filesystem \<Rightarrow> string \<Rightarrow> uint64 list \<Rightarrow> nat \<Rightarrow> nat \<Rightarrow> filesystem" where
  "write_rows fs fname results REPEAT i =
     (if i < REPEAT
      then write_rows (fprintf fs fname (csv_row i (results ! i))) fname results REPEAT (i + 1)
      else fs)"
  by pat_completeness auto
termination
  by (relation "measure (\<lambda>(fs, fname, results, REPEAT, i). REPEAT - i)") auto

declare write_rows.simps [simp del]

text \<open>Lines 164 to 173 after a successful \<^verbatim>\<open>fopen\<close>: the header, then one row per trial.\<close>

definition write_csv :: "filesystem \<Rightarrow> string \<Rightarrow> nat \<Rightarrow> uint64 list \<Rightarrow> filesystem" where
  "write_csv fs fname REPEAT results =
     write_rows (fprintf (fopen_w fs fname) fname (''rep,cycles'' @ [newline]))
       fname results REPEAT 0"

subsection \<open>A reader for the exported file\<close>

text \<open>
  Modelled from the spec: the repository has no code that reads the CSV file back; the
  reader below follows the spec's description of the file (a header line \<^verbatim>\<open>rep,cycles\<close>, then
  one newline-terminated row per trial holding the index and the cycle count in decimal).
  It is used only to state that the written file can be read back.
\<close>

fun split_on :: "char \<Rightarrow> string \<Rightarrow> string list" where
  "split_on c [] = [[]]"
| "split_on c (x # xs) =
     (if x = c then [] # split_on c xs
      else (case split_on c xs of [] \<Rightarrow> [[x]] | l # ls \<Rightarrow> (x # l) # ls))"

definition read_nat :: "string \<Rightarrow> nat" where
  "read_nat s = foldl (\<lambda>acc c. 10 * acc + digit_value c) 0 s"

definition read_field :: "string \<Rightarrow> nat option" where
  "read_field s = (if s \<noteq> [] \<and> list_all isdigit s then Some (read_nat s) else None)"

definition read_row :: "string \<Rightarrow> (nat \<times> nat) option" where
  "read_row l =
     (case split_on CHR '','' l of
        [a, b] \<Rightarrow>
          (case (read_field a, read_field b) of
             (Some i, Some v) \<Rightarrow> Some (i, v)
           | _ \<Rightarrow> None)
      | _ \<Rightarrow> None)"

fun read_rows :: "string list \<Rightarrow> (nat \<times> nat) list option" where
  "read_rows [] = Some []"
| "read_rows (l # ls) =
     (case read_row l of
        None \<Rightarrow> None
      | Some r \<Rightarrow> (case read_rows ls of None \<Rightarrow> None | Some rs \<Rightarrow> Some (r # rs)))"

definition read_csv :: "string \<Rightarrow> (nat \<times> nat) list option" where
  "read_csv content =
     (case split_on newline content of
        header # rest \<Rightarrow>
          if header = ''rep,cycles'' \<and> rest \<noteq> [] \<and> last rest = []
          then read_rows (butlast rest) else None
      | [] \<Rightarrow> None)"

section \<open>The size sweep (\<^verbatim>\<open>memtest_allsizes.c\<close>, \<^verbatim>\<open>main\<close>)\<close>

text \<open>
  What the run can observe of its surroundings is a parameter: whether \<^verbatim>\<open>mlockall\<close>, each
  allocation and each \<^verbatim>\<open>fopen\<close> succeed, and the two time-stamp readings of every trial
  (for the size with exponent \<open>x\<close>, trial \<open>rep\<close>).
\<close>

record env =
  mlockall_ok :: bool
  memalign_buf_ok :: "int \<Rightarrow> bool"
  memalign_bufcopy_ok :: "int \<Rightarrow> bool"
  malloc_results_ok :: "int \<Rightarrow> bool"
  malloc_sorted_ok :: "int \<Rightarrow> bool"
  fopen_ok :: "string \<Rightarrow> bool"
  rdtsc_start :: "int \<Rightarrow> nat \<Rightarrow> uint64"
  rdtsc_end :: "int \<Rightarrow> nat \<Rightarrow> uint64"

text \<open>The lines written to the two console streams, one constructor per format string,
  carrying the values it prints; the statistics line carries the summary they are taken from.\<close>

datatype out_line =
    Mlockall_OK
  | Testing int uint64 nat
  | Wrote_CSV string
  | Stats_line uint64 summary

datatype err_line =
    Mlockall_warning
  | Memalign_buf_failed
  | Memalign_bufcopy_failed
  | Malloc_results_fail
  | Failed_to_open string
  | Malloc_sorted_fail

record world =
  stdout :: "out_line list"
  stderr :: "err_line list"
  files :: filesystem

text \<open>
  Lines 148 to 159: \<^verbatim>\<open>results[rep] = (t1 - t0)\<close> for every trial. The flushes and the copy
  between the two readings act on the cache and on the buffers only; of a trial the model
  keeps its two readings. The array comes from \<^verbatim>\<open>malloc\<close> with indeterminate contents; the
  loop overwrites every element, and the model starts from zeros.
\<close>

function measure_loop ::
  "(nat \<Rightarrow> uint64) \<Rightarrow> (nat \<Rightarrow> uint64) \<Rightarrow> nat \<Rightarrow> nat \<Rightarrow> uint64 list \<Rightarrow> uint64 list" where
  "measure_loop t_start t_end REPEAT rep results =
     (if rep < REPEAT
      then measure_loop t_start t_end REPEAT (rep + 1)
             (results[rep := t_end rep - t_start rep])
      else results)"
  by pat_completeness auto
termination
  by (relation "measure (\<lambda>(t_start, t_end, REPEAT, rep, results). REPEAT - rep)") auto

declare measure_loop.simps [simp del]

text \<open>
  One iteration of the loop over sizes, lines 101 to 207. \<open>Inl\<close> is a call of
  \<^verbatim>\<open>exit(1)\<close>, carrying the world the process leaves behind; \<open>Inr\<close> is the world after the
  iteration has run to its end.
\<close>

definition run_size :: "env \<Rightarrow> world \<Rightarrow> int \<Rightarrow> world + world" where
  "run_size env w x =
     (let sz = size_of_exponent x;
          REPEAT = repeat_for sz;
          w1 = w\<lparr>stdout := stdout w @ [Testing x sz REPEAT]\<rparr>
      in if \<not> memalign_buf_ok env x
         then Inl (w1\<lparr>stderr := stderr w1 @ [Memalign_buf_failed]\<rparr>)
         else if \<not> memalign_bufcopy_ok env x
         then Inl (w1\<lparr>stderr := stderr w1 @ [Memalign_bufcopy_failed]\<rparr>)
         else if \<not> malloc_results_ok env x
         then Inl (w1\<lparr>stderr := stderr w1 @ [Malloc_results_fail]\<rparr>)
         else
           (let results = measure_loop (rdtsc_start env x) (rdtsc_end env x) REPEAT 0
                            (replicate REPEAT 0);
                fname = csv_name x sz
            in if \<not> fopen_ok env fname
               then Inl (w1\<lparr>stderr := stderr w1 @ [Failed_to_open fname]\<rparr>)
               else
                 (let w2 = w1\<lparr>files := write_csv (files w1) fname REPEAT results,
                                stdout := stdout w1 @ [Wrote_CSV fname]\<rparr>
                  in if \<not> malloc_sorted_ok env x
                     then Inl (w2\<lparr>stderr := stderr w2 @ [Malloc_sorted_fail]\<rparr>)
                     else Inr (w2\<lparr>stdout := stdout w2 @
                                 [Stats_line sz (summarize REPEAT results)]\<rparr>))))"

text \<open>\<^verbatim>\<open>for (int si = start_idx; si <= end_idx; ++si)\<close>\<close>

function sweep :: "env \<Rightarrow> world \<Rightarrow> int \<Rightarrow> int \<Rightarrow> world + world" where
  "sweep env w si end_idx =
     (if si \<le> end_idx
      then (case run_size env w (exponents ! nat si) of
              Inl w' \<Rightarrow> Inl w'
            | Inr w' \<Rightarrow> sweep env w' (si + 1) end_idx)
      else Inr w)"
  by pat_completeness auto
termination
  by (relation "measure (\<lambda>(env, w, si, end_idx). nat (end_idx + 1 - si))") auto

declare sweep.simps [simp del]

text \<open>
  The whole program: the exit status and the world at exit, for the files \<open>fs\<close> present at
  the start.
\<close>

definition main :: "env \<Rightarrow> filesystem \<Rightarrow> string list \<Rightarrow> int \<times> world" where
  "main env fs argv =
     (case select_range argv of
        (start_idx, end_idx) \<Rightarrow>
          (let w0 = \<lparr>stdout = (if mlockall_ok env then [Mlockall_OK] else []),
                     stderr = (if mlockall_ok env then [] else [Mlockall_warning]),
                     files = fs\<rparr>
           in case sweep env w0 start_idx end_idx of
                Inl w \<Rightarrow> (1, w)
              | Inr w \<Rightarrow> (0, w)))"

subsection \<open>Reading a run\<close>

text \<open>
  Names for what the claims speak of: the samples of one size, the environment in which
  nothing fails for a size, and the sizes and files a console log reports.
\<close>

definition measured :: "env \<Rightarrow> int \<Rightarrow> uint64 list" where
  "measured env x =
     measure_loop (rdtsc_start env x) (rdtsc_end env x) (repeat_for (size_of_exponent x)) 0
       (replicate (repeat_for (size_of_exponent x)) 0)"

definition allocations_ok :: "env \<Rightarrow> int \<Rightarrow> bool" where
  "allocations_ok env x =
     (memalign_buf_ok env x \<and> memalign_bufcopy_ok env x \<and> malloc_results_ok env x)"

definition size_ok :: "env \<Rightarrow> int \<Rightarrow> bool" where
  "size_ok env x =
     (allocations_ok env x \<and> fopen_ok env (csv_name x (size_of_exponent x))
      \<and> malloc_sorted_ok env x)"

fun tested :: "out_line list \<Rightarrow> int list" where
  "tested [] = []"
| "tested (Testing x sz n # ls) = x # tested ls"
| "tested (l # ls) = tested ls"

fun csv_written :: "out_line list \<Rightarrow> string list" where
  "csv_written [] = []"
| "csv_written (Wrote_CSV fname # ls) = fname # csv_written ls"
| "csv_written (l # ls) = csv_written ls"

subsection \<open>Sample inputs\<close>

text \<open>
  Three environments at which the theorems below are instantiated: one in which nothing
  fails and every trial takes 100 cycles, one in which no file can be opened for writing,
  and one in which only the file of the second size, \<open>2 ^ 7\<close> bytes, cannot be opened.
\<close>

definition steady_env :: env where
  "steady_env =
     \<lparr>mlockall_ok = True,
      memalign_buf_ok = (\<lambda>x. True),
      memalign_bufcopy_ok = (\<lambda>x. True),
      malloc_results_ok = (\<lambda>x. True),
      malloc_sorted_ok = (\<lambda>x. True),
      fopen_ok = (\<lambda>fname. True),
      rdtsc_start = (\<lambda>x rep. 1000 * of_nat rep),
      rdtsc_end = (\<lambda>x rep. 1000 * of_nat rep + 100)\<rparr>"

definition fopen_fails_env :: env where
  "fopen_fails_env = steady_env\<lparr>fopen_ok := (\<lambda>fname. False)\<rparr>"

definition second_fopen_fails_env :: env where
  "second_fopen_fails_env =
     steady_env\<lparr>fopen_ok := (\<lambda>fname. fname \<noteq> ''memcpy_2pow7_128b.csv'')\<rparr>"

text \<open>A series for the largest size, whose trial count is 2000: every trial takes
  \<open>2 ^ 54 + 1\<close> cycles.\<close>

definition slow_trials :: "uint64 list" where
  "slow_trials = replicate 2000 18014398509481985"

section \<open>Properties of the model\<close>

subsection \<open>Rounding\<close>

lemma powi2_less_imp: "(2::rat) powi a < 2 powi b \<Longrightarrow> a < b"
  using power_int_increasing [of b a "2::rat"] by (cases "a < b") auto

lemma powi2_mult: "(2::rat) powi a * 2 powi b = 2 powi (a + b)"
  by (simp add: power_int_add)

lemma powi_bitlen_bounds:
  assumes "0 < n"
  shows "(2::rat) powi (bitlen n - 1) \<le> of_int n" and "of_int n < (2::rat) powi (bitlen n)"
proof -
  have b: "1 \<le> bitlen n"
    using assms bitlen_eq_zero_iff [of n] bitlen_nonneg [of n] by linarith
  from bitlen_bounds [OF assms]
  have l: "2 ^ nat (bitlen n - 1) \<le> n" and u: "n < 2 ^ nat (bitlen n)" by simp_all
  have "(of_int (2 ^ nat (bitlen n - 1)) :: rat) \<le> of_int n"
    using l by (simp only: of_int_le_iff)
  then show "(2::rat) powi (bitlen n - 1) \<le> of_int n"
    using b by (simp add: power_int_def)
  have "(of_int n :: rat) < of_int (2 ^ nat (bitlen n))"
    using u by (simp only: of_int_less_iff)
  then show "of_int n < (2::rat) powi (bitlen n)"
    using b by (simp add: power_int_def)
qed

lemma floor_log2_bounds:
  assumes "0 < x"
  shows "2 powi (floor_log2 x) \<le> x \<and> x < 2 powi (floor_log2 x + 1)"
proof -
  obtain n d where q: "quotient_of x = (n, d)" by (cases "quotient_of x")
  have d: "0 < d" using quotient_of_denom_pos [OF q] .
  have x: "x = of_int n / of_int d" using quotient_of_div [OF q] .
  have n: "0 < n" using assms d x by (simp add: zero_less_divide_iff)
  define e where "e = bitlen n - bitlen d"
  note bn = powi_bitlen_bounds [OF n] and bd = powi_bitlen_bounds [OF d]
  have dpos: "(0::rat) < of_int d" using d by simp
  have "x < 2 powi (bitlen n) / 2 powi (bitlen d - 1)"
    unfolding x using bn(2) bd(1) n
    by (intro frac_less) auto
  then have up: "x < 2 powi (e + 1)"
    by (simp add: e_def power_int_diff power_int_add)
  have "2 powi (bitlen n - 1) / 2 powi (bitlen d) < x"
    unfolding x using bn(1) bd(2) dpos
    by (intro frac_less2) auto
  then have lo: "2 powi (e - 1) < x"
    by (simp add: e_def power_int_diff power_int_add)
  have fl: "floor_log2 x = (if x < 2 powi e then e - 1 else e)"
    by (simp add: floor_log2_def q e_def Let_def)
  show ?thesis
    using up lo by (auto simp: fl)
qed

lemma round_half_even_of_int: "round_half_even (of_int k) = k"
  by (simp add: round_half_even_def)

lemma round_half_even_range:
  "\<lfloor>r\<rfloor> \<le> round_half_even r" "round_half_even r \<le> \<lfloor>r\<rfloor> + 1"
  by (simp_all add: round_half_even_def Let_def)

lemma round_half_even_mono:
  assumes "r \<le> s"
  shows "round_half_even r \<le> round_half_even s"
proof (cases "\<lfloor>r\<rfloor> = \<lfloor>s\<rfloor>")
  case True
  then show ?thesis
    using assms by (auto simp: round_half_even_def Let_def)
next
  case False
  then have "\<lfloor>r\<rfloor> + 1 \<le> \<lfloor>s\<rfloor>"
    using floor_mono [OF assms] by linarith
  then show ?thesis
    using round_half_even_range(2) [of r] round_half_even_range(1) [of s] by linarith
qed

lemma fp_round_pos:
  assumes "0 < x"
  shows "fp_round p x = of_int (round_half_even (x / 2 powi (floor_log2 x - int p + 1))) * 2 powi (floor_log2 x - int p + 1)"
  using assms by (simp add: fp_round_def Let_def)

lemma scaled_range:
  assumes "0 < x" and "1 \<le> p"
  shows "of_int (2 ^ (p - 1)) \<le> x / 2 powi (floor_log2 x - int p + 1)"
    and "x / 2 powi (floor_log2 x - int p + 1) \<le> of_int (2 ^ p)"
proof -
  let ?e = "floor_log2 x"
  let ?u = "(2::rat) powi (?e - int p + 1)"
  have u: "0 < ?u" by simp
  from floor_log2_bounds [OF assms(1)]
  have lo: "2 powi ?e \<le> x" and hi: "x < 2 powi (?e + 1)" by simp_all
  have "2 powi ?e / ?u = 2 powi (int p - 1)"
    by (simp add: power_int_diff power_int_add)
  also have "\<dots> = 2 ^ (p - 1)"
    using assms(2) by (simp add: power_int_def nat_diff_distrib)
  finally have a: "2 powi ?e / ?u = 2 ^ (p - 1)" .
  have "2 powi (?e + 1) / ?u = 2 powi (int p)"
    by (simp add: power_int_diff power_int_add)
  then have b: "2 powi (?e + 1) / ?u = 2 ^ p" by simp
  have "2 powi ?e / ?u \<le> x / ?u"
    using lo u by (simp add: divide_right_mono)
  then show "of_int (2 ^ (p - 1)) \<le> x / ?u" using a by simp
  have "x / ?u \<le> 2 powi (?e + 1) / ?u"
    using hi u by (simp add: divide_right_mono)
  then show "x / ?u \<le> of_int (2 ^ p)" using b by simp
qed

lemma fp_round_bounds:
  assumes "0 < x" and "1 \<le> p"
  shows "2 powi (floor_log2 x) \<le> fp_round p x" and "fp_round p x \<le> 2 powi (floor_log2 x + 1)"
proof -
  let ?e = "floor_log2 x"
  let ?u = "(2::rat) powi (?e - int p + 1)"
  have u: "0 < ?u" by simp
  from round_half_even_mono [OF scaled_range(1) [OF assms]]
  have "2 ^ (p - 1) \<le> round_half_even (x / ?u)"
    by (simp only: round_half_even_of_int)
  then have "(of_int (2 ^ (p - 1)) :: rat) \<le> of_int (round_half_even (x / ?u))"
    by (simp only: of_int_le_iff)
  then have "of_int (2 ^ (p - 1)) * ?u \<le> fp_round p x"
    using u by (simp add: fp_round_pos [OF assms(1)])
  moreover have "of_int (2 ^ (p - 1)) * ?u = 2 powi ?e"
  proof -
    have "(of_int (2 ^ (p - 1)) :: rat) = 2 powi (int p - 1)"
      using assms(2) by (simp add: power_int_def nat_diff_distrib)
    then show ?thesis
      by (simp only: powi2_mult) simp
  qed
  ultimately show "2 powi ?e \<le> fp_round p x" by simp
  from round_half_even_mono [OF scaled_range(2) [OF assms]]
  have "round_half_even (x / ?u) \<le> 2 ^ p"
    by (simp only: round_half_even_of_int)
  then have "(of_int (round_half_even (x / ?u)) :: rat) \<le> of_int (2 ^ p)"
    by (simp only: of_int_le_iff)
  then have "fp_round p x \<le> of_int (2 ^ p) * ?u"
    using u by (simp add: fp_round_pos [OF assms(1)])
  moreover have "of_int (2 ^ p) * ?u = 2 powi (?e + 1)"
  proof -
    have "(of_int (2 ^ p) :: rat) = 2 powi (int p)" by simp
    then show ?thesis
      by (simp only: powi2_mult) simp
  qed
  ultimately show "fp_round p x \<le> 2 powi (?e + 1)" by simp
qed

lemma fp_round_mono_pos:
  assumes "0 < x" and "x \<le> y" and "1 \<le> p"
  shows "fp_round p x \<le> fp_round p y"
proof -
  have y: "0 < y" using assms by simp
  from floor_log2_bounds [OF assms(1)] floor_log2_bounds [OF y] assms(2)
  have "(2::rat) powi (floor_log2 x) < 2 powi (floor_log2 y + 1)" by linarith
  then have le: "floor_log2 x \<le> floor_log2 y"
    using powi2_less_imp by fastforce
  show ?thesis
  proof (cases "floor_log2 x = floor_log2 y")
    case True
    let ?u = "(2::rat) powi (floor_log2 y - int p + 1)"
    have u: "0 < ?u" by simp
    have "x / ?u \<le> y / ?u" using assms(2) u by (simp add: divide_right_mono)
    from round_half_even_mono [OF this]
    have "(of_int (round_half_even (x / ?u)) :: rat) \<le> of_int (round_half_even (y / ?u))"
      by (simp only: of_int_le_iff)
    then show ?thesis
      using u by (simp add: fp_round_pos [OF assms(1)] fp_round_pos [OF y] True)
  next
    case False
    then have "floor_log2 x + 1 \<le> floor_log2 y" using le by simp
    then have "(2::rat) powi (floor_log2 x + 1) \<le> 2 powi (floor_log2 y)"
      by (simp add: power_int_increasing)
    then show ?thesis
      using fp_round_bounds(2) [OF assms(1,3)] fp_round_bounds(1) [OF y assms(3)]
      by linarith
  qed
qed

lemma fp_round_nonneg:
  assumes "0 \<le> x" and "1 \<le> p"
  shows "0 \<le> fp_round p x"
proof (cases "x = 0")
  case True
  then show ?thesis by (simp add: fp_round_def)
next
  case False
  then have "0 < x" using assms by simp
  from fp_round_bounds(1) [OF this assms(2)] show ?thesis
    by (meson zero_le_power_int order_trans zero_le_numeral)
qed

lemma fp_round_mono:
  assumes "0 \<le> x" and "x \<le> y" and "1 \<le> p"
  shows "fp_round p x \<le> fp_round p y"
proof (cases "x = 0")
  case True
  then show ?thesis
    using fp_round_nonneg [of y p] assms by (simp add: fp_round_def)
next
  case False
  then show ?thesis using assms fp_round_mono_pos by simp
qed

lemma fp_round_of_nat:
  assumes "k < 2 ^ p" and "1 \<le> p"
  shows "fp_round p (of_nat k) = of_nat k"
proof (cases "k = 0")
  case True
  then show ?thesis by (simp add: fp_round_def)
next
  case False
  let ?x = "of_nat k :: rat"
  let ?t = "floor_log2 ?x - int p + 1"
  have x: "0 < ?x" using False by simp
  have "(2::rat) powi (floor_log2 ?x) \<le> ?x"
    using floor_log2_bounds [OF x] by simp
  also have "?x < 2 ^ p"
    using assms(1) by (metis of_nat_less_iff of_nat_numeral of_nat_power)
  finally have "(2::rat) powi (floor_log2 ?x) < 2 powi (int p)" by simp
  then have "floor_log2 ?x < int p"
    by (rule powi2_less_imp)
  then have t: "?t \<le> 0" by simp
  have "?x / 2 powi ?t = ?x * 2 powi (- ?t)"
    by (simp only: power_int_minus divide_inverse)
  also have "\<dots> = ?x * 2 ^ nat (- ?t)"
    using t by (simp add: power_int_def)
  also have "\<dots> = of_int (int k * 2 ^ nat (- ?t))"
    by simp
  finally have "round_half_even (?x / 2 powi ?t) = int k * 2 ^ nat (- ?t)"
    by (simp only: round_half_even_of_int)
  then have "fp_round p ?x = of_int (int k * 2 ^ nat (- ?t)) * 2 powi ?t"
    by (simp only: fp_round_pos [OF x])
  also have "\<dots> = ?x * (2 powi (- ?t) * 2 powi ?t)"
    using t by (simp add: power_int_def)
  also have "\<dots> = ?x"
    by (simp only: powi2_mult) simp
  finally show ?thesis .
qed

subsection \<open>The threshold and the rounding of the ratio\<close>

lemma ld_three_halves: "ld (3 / 2) = 3 / 2" "dbl (3 / 2) = 3 / 2"
  by code_simp+

lemma ld_next_above: "ld (3 / 2 + 1 / 2 ^ 52) = 3 / 2 + 1 / 2 ^ 52" "dbl (3 / 2 + 1 / 2 ^ 52) = 3 / 2 + 1 / 2 ^ 52"
  by code_simp+

lemma ratio_le_threshold:
  assumes "0 \<le> q" and "q \<le> 3 / 2"
  shows "dbl (ld q) \<le> 3 / 2"
proof -
  have a: "ld q \<le> 3 / 2"
    using fp_round_mono [OF assms, of 64] by (simp add: ld_def [symmetric] ld_three_halves)
  have b: "0 \<le> ld q"
    using fp_round_nonneg [OF assms(1), of 64] by (simp add: ld_def)
  show ?thesis
    using fp_round_mono [OF b a, of 53] by (simp add: dbl_def [symmetric] ld_three_halves)
qed

lemma ratio_ge_next:
  assumes "3 / 2 + 1 / 2 ^ 52 \<le> q"
  shows "3 / 2 < dbl (ld q)"
proof -
  define c :: rat where "c = 3 / 2 + 1 / 2 ^ 52"
  have p: "0 \<le> c" by (simp add: c_def)
  have e: "fp_round 64 c = c" "fp_round 53 c = c"
    using ld_next_above by (simp_all only: c_def ld_def dbl_def)
  have "fp_round 64 c \<le> fp_round 64 q"
    using assms p by (intro fp_round_mono) (simp_all add: c_def)
  then have a: "c \<le> ld q" by (simp only: e ld_def)
  have "fp_round 53 c \<le> fp_round 53 (ld q)"
    using a p by (intro fp_round_mono) simp_all
  then have "c \<le> dbl (ld q)" by (simp only: e dbl_def)
  then show ?thesis by (simp add: c_def)
qed

subsection \<open>Sorting with the comparator\<close>

lemma cmp_uint64_le: "cmp_uint64 a b \<le> 0 \<longleftrightarrow> a \<le> b"
  by (auto simp: cmp_uint64_def)

lemma qsort_insert_insort: "qsort_insert cmp_uint64 x ys = insort x ys"
  by (induction ys) (simp_all add: cmp_uint64_le)

lemma qsort_sort: "qsort cmp_uint64 xs = sort xs"
  by (induction xs) (simp_all add: qsort_insert_insort)

lemma qsort_result_iff: "qsort_result cmp_uint64 xs ys \<longleftrightarrow> ys = sort xs"
proof
  assume "qsort_result cmp_uint64 xs ys"
  then have "mset ys = mset xs" and "sorted ys"
    by (simp_all add: qsort_result_def cmp_uint64_le)
  then show "ys = sort xs"
    using properties_for_sort by blast
next
  assume "ys = sort xs"
  then show "qsort_result cmp_uint64 xs ys"
    by (simp add: qsort_result_def cmp_uint64_le)
qed

lemma sorted_first_le:
  assumes "sorted ys" and "y \<in> set ys"
  shows "ys ! 0 \<le> y"
proof -
  obtain i where "i < length ys" "ys ! i = y"
    using assms(2) by (auto simp: in_set_conv_nth)
  then show ?thesis
    using sorted_nth_mono [OF assms(1), of 0 i] by simp
qed

lemma sorted_last_ge:
  assumes "sorted ys" and "y \<in> set ys"
  shows "y \<le> ys ! (length ys - 1)"
proof -
  obtain i where "i < length ys" "ys ! i = y"
    using assms(2) by (auto simp: in_set_conv_nth)
  then show ?thesis
    using sorted_nth_mono [OF assms(1), of i "length ys - 1"] by auto
qed

subsection \<open>The fields of the summary\<close>

lemma summarize_fields:
  assumes "length results = REPEAT"
  shows "trials (summarize REPEAT results) = REPEAT"
    and "minv (summarize REPEAT results) = sort results ! 0"
    and "maxv (summarize REPEAT results) = sort results ! (REPEAT - 1)"
    and "median (summarize REPEAT results) = sort results ! (REPEAT div 2)"
    and "mean (summarize REPEAT results) = ld (sum_loop results REPEAT 0 0 / of_nat REPEAT)"
  using assms by (simp_all add: summarize_def compute_stats_def Let_def qsort_sort)

lemma median_in_range:
  assumes "length results = REPEAT" and "0 < REPEAT"
  shows "minv (summarize REPEAT results) \<le> median (summarize REPEAT results)"
    and "median (summarize REPEAT results) \<le> maxv (summarize REPEAT results)"
proof -
  have s: "sorted (sort results)" and l: "length (sort results) = REPEAT"
    using assms by simp_all
  have "REPEAT div 2 < REPEAT" using assms(2) by simp
  then have m: "sort results ! (REPEAT div 2) \<in> set (sort results)"
    using l by (metis nth_mem)
  show "minv (summarize REPEAT results) \<le> median (summarize REPEAT results)"
    using sorted_first_le [OF s m] by (simp add: summarize_fields [OF assms(1)])
  show "median (summarize REPEAT results) \<le> maxv (summarize REPEAT results)"
    using sorted_last_ge [OF s m] l by (simp add: summarize_fields [OF assms(1)])
qed

lemma minv_maxv_bounds:
  assumes "length results = REPEAT" and "x \<in> set results"
  shows "minv (summarize REPEAT results) \<le> x" and "x \<le> maxv (summarize REPEAT results)"
proof -
  have s: "sorted (sort results)" and l: "length (sort results) = REPEAT"
    and m: "x \<in> set (sort results)"
    using assms by simp_all
  show "minv (summarize REPEAT results) \<le> x"
    using sorted_first_le [OF s m] by (simp add: summarize_fields [OF assms(1)])
  show "x \<le> maxv (summarize REPEAT results)"
    using sorted_last_ge [OF s m] l by (simp add: summarize_fields [OF assms(1)])
qed

lemma minv_maxv_mem:
  assumes "length results = REPEAT" and "0 < REPEAT"
  shows "minv (summarize REPEAT results) \<in> set results"
    and "maxv (summarize REPEAT results) \<in> set results"
    and "median (summarize REPEAT results) \<in> set results"
proof -
  have l: "length (sort results) = REPEAT" using assms by simp
  have "sort results ! i \<in> set results" if "i < REPEAT" for i
    using that l by (metis nth_mem set_sort)
  then show "minv (summarize REPEAT results) \<in> set results"
    and "maxv (summarize REPEAT results) \<in> set results"
    and "median (summarize REPEAT results) \<in> set results"
    using assms(2) by (simp_all add: summarize_fields [OF assms(1)])
qed

subsection \<open>The accumulation loops as folds\<close>

lemma sum_loop_foldl:
  assumes "REPEAT \<le> length results"
  shows "sum_loop results REPEAT i acc =
         foldl (\<lambda>a v. ld (a + ld_of_uint64 v)) acc (drop i (take REPEAT results))"
  using assms
proof (induction results REPEAT i acc rule: sum_loop.induct)
  case (1 results REPEAT i acc)
  show ?case
  proof (cases "i < REPEAT")
    case True
    then have "i < length (take REPEAT results)" using 1(2) by simp
    then have "drop i (take REPEAT results) = results ! i # drop (Suc i) (take REPEAT results)"
      using True by (simp add: Cons_nth_drop_Suc [symmetric])
    then show ?thesis
      using True 1(1) [OF True 1(2)] by (subst sum_loop.simps) simp
  next
    case False
    then show ?thesis by (subst sum_loop.simps) simp
  qed
qed

lemma ssum_loop_foldl:
  assumes "REPEAT \<le> length results"
  shows "ssum_loop results REPEAT m i acc =
         foldl (\<lambda>a v. ld (a + ld (ld (ld_of_uint64 v - m) * ld (ld_of_uint64 v - m)))) acc
           (drop i (take REPEAT results))"
  using assms
proof (induction results REPEAT m i acc rule: ssum_loop.induct)
  case (1 results REPEAT m i acc)
  show ?case
  proof (cases "i < REPEAT")
    case True
    then have "i < length (take REPEAT results)" using 1(2) by simp
    then have "drop i (take REPEAT results) = results ! i # drop (Suc i) (take REPEAT results)"
      using True by (simp add: Cons_nth_drop_Suc [symmetric])
    then show ?thesis
      using True 1(1) [OF True refl 1(2)] by (subst ssum_loop.simps) (simp add: Let_def)
  next
    case False
    then show ?thesis by (subst ssum_loop.simps) simp
  qed
qed

lemma summarize_computation:
  assumes "length results = REPEAT"
  shows "mean (summarize REPEAT results) =
           ld (foldl (\<lambda>a v. ld (a + ld_of_uint64 v)) 0 results / of_nat REPEAT)"
    and "stddev (summarize REPEAT results) =
           sqrt_double (dbl (ld (foldl (\<lambda>a v. ld (a + ld (ld (ld_of_uint64 v - mean (summarize REPEAT results))
                                                        * ld (ld_of_uint64 v - mean (summarize REPEAT results)))))
                                    0 results / of_nat REPEAT)))"
  using assms
  by (simp_all add: summarize_def compute_stats_def Let_def sum_loop_foldl ssum_loop_foldl)

subsection \<open>Exact accumulation below \<open>2 ^ 64\<close>\<close>

lemma ld_of_uint64_nat: "ld_of_uint64 w = of_nat (unat w)"
  unfolding ld_of_uint64_def by (simp only: of_int_uint of_nat_unat)

lemma unat_uint64_less: "unat (w :: uint64) < 2 ^ 64"
proof -
  have "unat w < 2 ^ LENGTH(64)" by (rule unsigned_less)
  then show ?thesis by simp
qed

lemma ld_of_nat: "k < 2 ^ 64 \<Longrightarrow> ld (of_nat k) = of_nat k"
  by (simp add: ld_def fp_round_of_nat)

lemma ld_of_uint64_exact: "ld (ld_of_uint64 w) = ld_of_uint64 w"
  using ld_of_nat [OF unat_uint64_less [of w]] by (simp only: ld_of_uint64_nat)

lemma sum_loop_exact:
  assumes "i \<le> length xs" and "a + sum_list (map unat (drop i xs)) < 2 ^ 64"
  shows "sum_loop xs (length xs) i (of_nat a) = of_nat (a + sum_list (map unat (drop i xs)))"
  using assms
proof (induction "length xs - i" arbitrary: i a)
  case 0
  then show ?case by (simp add: sum_loop.simps)
next
  case (Suc n)
  then have i: "i < length xs" by simp
  have d: "drop i xs = xs ! i # drop (Suc i) xs"
    using i by (simp add: Cons_nth_drop_Suc)
  have b: "a + unat (xs ! i) < 2 ^ 64"
    using Suc.prems(2) by (simp add: d)
  have step: "ld (of_nat a + ld_of_uint64 (xs ! i)) = of_nat (a + unat (xs ! i))"
    using ld_of_nat [OF b] by (simp add: ld_of_uint64_nat del: of_nat_unat)
  have "sum_loop xs (length xs) (Suc i) (of_nat (a + unat (xs ! i)))
        = of_nat (a + unat (xs ! i) + sum_list (map unat (drop (Suc i) xs)))"
    using Suc.hyps Suc.prems i by (intro Suc.hyps(1)) (simp_all add: d)
  then show ?case
    using i by (subst sum_loop.simps) (simp add: step d)
qed

lemma sum_list_unat_bounds:
  assumes "\<And>x. x \<in> set xs \<Longrightarrow> lo \<le> x \<and> x \<le> hi"
  shows "length xs * unat lo \<le> sum_list (map unat xs)"
    and "sum_list (map unat xs) \<le> length xs * unat hi"
  using assms
proof (induction xs)
  case Nil
  { case 1 show ?case by simp }
  { case 2 show ?case by simp }
next
  case (Cons x xs)
  { case 1
    have "unat lo \<le> unat x" using 1 [of x] by (simp add: word_le_nat_alt)
    moreover have "length xs * unat lo \<le> sum_list (map unat xs)"
      using Cons.IH(1) 1 by simp
    ultimately show ?case by simp }
  { case 2
    have "unat x \<le> unat hi" using 2 [of x] by (simp add: word_le_nat_alt)
    moreover have "sum_list (map unat xs) \<le> length xs * unat hi"
      using Cons.IH(2) 2 by simp
    ultimately show ?case by simp }
qed

lemma mean_in_range:
  assumes len: "length results = REPEAT" and pos: "0 < REPEAT"
    and small: "sum_list (map unat results) < 2 ^ 64"
  shows "ld_of_uint64 (minv (summarize REPEAT results)) \<le> mean (summarize REPEAT results)"
    and "mean (summarize REPEAT results) \<le> ld_of_uint64 (maxv (summarize REPEAT results))"
proof -
  let ?s = "summarize REPEAT results"
  let ?S = "sum_list (map unat results)"
  have sum: "sum_loop results REPEAT 0 0 = of_nat ?S"
    using sum_loop_exact [of 0 results 0] small len by simp
  have m: "mean ?s = ld (of_nat ?S / of_nat REPEAT)"
    by (simp add: summarize_fields(5) [OF len] sum)
  have n: "(0::rat) < of_nat REPEAT" using pos by simp
  have "REPEAT * unat (minv ?s) \<le> ?S" and "?S \<le> REPEAT * unat (maxv ?s)"
    using sum_list_unat_bounds [of results "minv ?s" "maxv ?s"] minv_maxv_bounds [OF len]
    by (simp_all add: len)
  then have "(of_nat (REPEAT * unat (minv ?s)) :: rat) \<le> of_nat ?S"
    and "(of_nat ?S :: rat) \<le> of_nat (REPEAT * unat (maxv ?s))"
    by (simp_all only: of_nat_le_iff)
  then have lo: "(of_nat (unat (minv ?s)) :: rat) \<le> of_nat ?S / of_nat REPEAT"
    and hi: "(of_nat ?S :: rat) / of_nat REPEAT \<le> of_nat (unat (maxv ?s))"
    using n by (simp_all add: pos_le_divide_eq pos_divide_le_eq mult.commute)
  have "fp_round 64 (of_nat (unat (minv ?s))) \<le> fp_round 64 (of_nat ?S / of_nat REPEAT)"
    using lo by (intro fp_round_mono) (simp_all del: of_nat_unat)
  then show "ld_of_uint64 (minv ?s) \<le> mean ?s"
    using ld_of_uint64_exact [of "minv ?s"] by (simp add: m ld_def ld_of_uint64_nat del: of_nat_unat)
  have "fp_round 64 (of_nat ?S / of_nat REPEAT) \<le> fp_round 64 (of_nat (unat (maxv ?s)))"
    using hi by (intro fp_round_mono) (simp_all del: of_nat_unat)
  then show "mean ?s \<le> ld_of_uint64 (maxv ?s)"
    using ld_of_uint64_exact [of "maxv ?s"] by (simp add: m ld_def ld_of_uint64_nat del: of_nat_unat)
qed

lemma design_range_sum:
  assumes "length results \<le> 200000" and "\<And>x. x \<in> set results \<Longrightarrow> unat x \<le> 10 ^ 9"
  shows "sum_list (map unat results) \<le> 2 * 10 ^ 14"
proof -
  have "sum_list (map unat results) \<le> length results * 10 ^ 9"
    using assms(2) by (induction results) (simp_all add: add_mono)
  also have "\<dots> \<le> 200000 * 10 ^ 9"
    using assms(1) by (simp only: mult_le_mono1)
  finally show ?thesis by simp
qed

subsection \<open>Three samples just below \<open>2 ^ 64\<close>\<close>

lemma sum_loop_three:
  "sum_loop [a, b, c] 3 0 0 = ld (ld (ld (0 + ld_of_uint64 a) + ld_of_uint64 b) + ld_of_uint64 c)"
  by (simp add: sum_loop.simps numeral_3_eq_3)

lemma near_max_mean:
  "ld (ld (ld (ld (0 + 18446744073709551614) + 18446744073709551614) + 18446744073709551614) / 3)
   = 18446744073709551613"
  by code_simp

subsection \<open>Two thousand samples of \<open>2 ^ 54 + 1\<close> cycles\<close>

lemma floor_log2_unique:
  assumes "2 powi e \<le> x" and "x < 2 powi (e + 1)"
  shows "floor_log2 x = e"
proof -
  have x: "0 < x" using assms(1) by (meson less_le_trans zero_less_numeral zero_less_power_int)
  from floor_log2_bounds [OF x]
  have "(2::rat) powi (floor_log2 x) < 2 powi (e + 1)" and "(2::rat) powi e < 2 powi (floor_log2 x + 1)"
    using assms by linarith+
  then have "floor_log2 x < e + 1" and "e < floor_log2 x + 1"
    using powi2_less_imp by blast+
  then show ?thesis by simp
qed

lemma ld_tie_to_even:
  assumes "2 ^ 64 \<le> 4 * m" and "4 * m + 1 < 2 ^ 65"
  shows "ld (of_int (4 * m + 1)) = of_int (4 * m)"
proof -
  define x :: rat where "x = of_int (4 * m + 1)"
  have "(of_int (2 ^ 64) :: rat) \<le> of_int (4 * m + 1)" and "x < of_int (2 ^ 65)"
    unfolding x_def using assms by (simp_all only: of_int_le_iff of_int_less_iff)
  then have "2 powi 64 \<le> x" and "x < 2 powi (64 + 1)" by (simp_all add: x_def)
  then have e: "floor_log2 x = 64" by (rule floor_log2_unique)
  have pos: "0 < x" using assms(1) by (simp add: x_def)
  have half: "x / 2 = of_int (2 * m) + 1 / 2" by (simp add: x_def)
  have f1: "\<lfloor>2 * (of_int m :: rat)\<rfloor> = 2 * m"
    by (metis floor_of_int of_int_mult of_int_numeral)
  have f2: "\<lfloor>1 / 2 :: rat\<rfloor> = 0" by (rule floor_unique) simp_all
  have "round_half_even (of_int (2 * m) + 1 / 2) = 2 * m"
    by (simp add: round_half_even_def Let_def f1 f2)
  then have r: "round_half_even (x / 2) = 2 * m"
    by (simp only: half)
  have "fp_round 64 x = of_int (round_half_even (x / 2 powi (64 - int 64 + 1))) * 2 powi (64 - int 64 + 1)"
    using fp_round_pos [OF pos, of 64] by (simp only: e)
  also have "\<dots> = of_int (round_half_even (x / 2)) * 2" by simp
  also have "\<dots> = of_int (4 * m)" by (simp add: r)
  finally show ?thesis by (simp only: ld_def x_def)
qed

lemma sum_loop_equal_exact:
  assumes "\<And>i. i < n \<Longrightarrow> xs ! i = w" and "k \<le> n" and "k * unat w < 2 ^ 64"
  shows "sum_loop xs n 0 0 = sum_loop xs n k (of_nat (k * unat w))"
  using assms(2,3)
proof (induction k)
  case 0
  then show ?case by simp
next
  case (Suc k)
  have b: "k * unat w + unat w < 2 ^ 64" using Suc.prems(2) by (simp add: add.commute)
  then have "k * unat w < 2 ^ 64" by simp
  then have "sum_loop xs n 0 0 = sum_loop xs n k (of_nat (k * unat w))"
    using Suc by simp
  also have "\<dots> = sum_loop xs n (Suc k) (ld (of_nat (k * unat w) + ld_of_uint64 w))"
    using Suc.prems(1) assms(1) [of k] by (subst sum_loop.simps) simp
  also have "ld (of_nat (k * unat w) + ld_of_uint64 w) = of_nat (Suc k * unat w)"
    using ld_of_nat [OF b] by (simp add: ld_of_uint64_nat add.commute del: of_nat_unat)
  finally show ?case .
qed

lemma sum_loop_equal_ties:
  assumes "\<And>i. i < n \<Longrightarrow> xs ! i = 18014398509481985" and "1024 + j \<le> n" and "j \<le> 976"
  shows "sum_loop xs n 1024 (of_int (2 ^ 64 + 1024)) =
         sum_loop xs n (1024 + j) (of_int (2 ^ 64 + 1024 + int j * 2 ^ 54))"
  using assms(2,3)
proof (induction j)
  case 0
  then show ?case by simp
next
  case (Suc j)
  let ?m = "2 ^ 62 + 256 + (int j + 1) * 2 ^ 52"
  have lo: "2 ^ 64 \<le> 4 * ?m" by simp
  have hi: "4 * ?m + 1 < 2 ^ 65" using Suc.prems(2) by simp
  have v: "ld_of_uint64 18014398509481985 = of_int (2 ^ 54 + 1)"
    by (simp add: ld_of_uint64_def)
  have "of_int (2 ^ 64 + 1024 + int j * 2 ^ 54) + ld_of_uint64 18014398509481985
        = (of_int (4 * ?m + 1) :: rat)"
    unfolding v by (simp add: algebra_simps)
  then have step: "ld (of_int (2 ^ 64 + 1024 + int j * 2 ^ 54) + ld_of_uint64 18014398509481985)
        = of_int (2 ^ 64 + 1024 + int (Suc j) * 2 ^ 54)"
    using ld_tie_to_even [OF lo hi] by (simp add: algebra_simps)
  have "sum_loop xs n 1024 (of_int (2 ^ 64 + 1024)) =
        sum_loop xs n (1024 + j) (of_int (2 ^ 64 + 1024 + int j * 2 ^ 54))"
    using Suc by simp
  also have "\<dots> = sum_loop xs n (Suc (1024 + j))
        (ld (of_int (2 ^ 64 + 1024 + int j * 2 ^ 54) + ld_of_uint64 18014398509481985))"
    using Suc.prems(1) assms(1) [of "1024 + j"] by (subst sum_loop.simps) simp
  finally show ?case by (simp only: step add_Suc_right)
qed

lemma slow_trials_nth: "i < 2000 \<Longrightarrow> slow_trials ! i = 18014398509481985"
  unfolding slow_trials_def by (rule nth_replicate)

lemma slow_trials_length: "length slow_trials = 2000"
  unfolding slow_trials_def by (rule length_replicate)

lemma slow_trials_sorted: "sort slow_trials = slow_trials"
  unfolding slow_trials_def by (rule sort_key_id_if_sorted) (simp only: list.map_ident sorted_replicate)

lemma slow_trials_sum: "sum_loop slow_trials 2000 0 0 = 36028797018963969024"
proof -
  have u: "unat (18014398509481985 :: uint64) = 18014398509481985" by simp
  have "sum_loop slow_trials 2000 0 0 =
        sum_loop slow_trials 2000 1023 (of_nat (1023 * unat (18014398509481985 :: uint64)))"
    by (rule sum_loop_equal_exact [OF slow_trials_nth]) (simp_all add: u)
  also have "\<dots> = sum_loop slow_trials 2000 1024
        (ld (of_nat (1023 * unat (18014398509481985 :: uint64)) + ld_of_uint64 18014398509481985))"
    by (subst sum_loop.simps) (simp add: slow_trials_nth)
  also have "ld (of_nat (1023 * unat (18014398509481985 :: uint64)) + ld_of_uint64 18014398509481985)
      = of_int (2 ^ 64 + 1024)"
  proof -
    have "ld (18428729675200070655 + 18014398509481985) = 18446744073709552640"
      by code_simp
    then show ?thesis by (simp add: u ld_of_uint64_def)
  qed
  also have "sum_loop slow_trials 2000 1024 (of_int (2 ^ 64 + 1024)) =
        sum_loop slow_trials 2000 (1024 + 976) (of_int (2 ^ 64 + 1024 + int 976 * 2 ^ 54))"
    by (rule sum_loop_equal_ties [OF slow_trials_nth]) simp_all
  also have "\<dots> = of_int (2 ^ 64 + 1024 + int 976 * 2 ^ 54)"
    by (subst sum_loop.simps) simp
  finally show ?thesis by simp
qed

lemma slow_trials_mean:
  "mean (summarize 2000 slow_trials) = 18014398509481984 + 131 / 256"
proof -
  have "ld (36028797018963969024 / 2000) = 18014398509481984 + 131 / 256"
    by code_simp
  then show ?thesis
    by (simp add: summarize_fields(5) [OF slow_trials_length] slow_trials_sum)
qed

lemma slow_trials_minv: "minv (summarize 2000 slow_trials) = 18014398509481985"
  by (simp add: summarize_fields(2) [OF slow_trials_length] slow_trials_sorted slow_trials_nth)

subsection \<open>The flush loop\<close>

lemma unat_word_of_nat64:
  assumes "k < 2 ^ 64"
  shows "unat (of_nat k :: uint64) = k"
  using assms by (simp add: unat_of_nat)

lemma flush_loop_unroll:
  assumes "64 * ((unat sz + 63) div 64) < 2 ^ 64" and "k \<le> (unat sz + 63) div 64"
  shows "flush_loop p sz 0 [] =
         flush_loop p sz (of_nat (64 * k)) (map (\<lambda>j. Clflush (p + of_nat (64 * j))) [0..<k])"
  using assms(2)
proof (induction k)
  case 0
  then show ?case by simp
next
  case (Suc k)
  let ?off = "of_nat (64 * k) :: uint64"
  have k: "64 * k < 2 ^ 64" using Suc.prems assms(1) by simp
  have u: "unat ?off = 64 * k" by (rule unat_word_of_nat64 [OF k])
  have "64 * k < unat sz" using Suc.prems by simp
  then have lt: "?off < sz" by (simp only: word_less_nat_alt u)
  have nxt: "?off + 64 = of_nat (64 * Suc k)" by simp
  have "flush_loop p sz 0 [] =
        flush_loop p sz ?off (map (\<lambda>j. Clflush (p + of_nat (64 * j))) [0..<k])"
    using Suc by simp
  also have "\<dots> = flush_loop p sz (?off + 64)
        (map (\<lambda>j. Clflush (p + of_nat (64 * j))) [0..<k] @ [Clflush (p + ?off)])"
    using lt by (subst flush_loop.simps) simp
  also have "\<dots> = flush_loop p sz (of_nat (64 * Suc k))
        (map (\<lambda>j. Clflush (p + of_nat (64 * j))) [0..<Suc k])"
    by (simp only: nxt) simp
  finally show ?case .
qed

lemma flush_loop_result:
  assumes "unat sz + 64 \<le> 2 ^ 64"
  shows "flush_loop p sz 0 [] =
         Some (map (\<lambda>j. Clflush (p + of_nat (64 * j))) [0..<(unat sz + 63) div 64])"
proof -
  let ?n = "(unat sz + 63) div 64"
  let ?off = "of_nat (64 * ?n) :: uint64"
  have n: "64 * ?n < 2 ^ 64" using assms by simp
  have u: "unat ?off = 64 * ?n" by (rule unat_word_of_nat64 [OF n])
  have "unat sz \<le> 64 * ?n" by simp
  then have ge: "\<not> ?off < sz" by (simp only: word_less_nat_alt u not_less)
  have "flush_loop p sz 0 [] =
        flush_loop p sz ?off (map (\<lambda>j. Clflush (p + of_nat (64 * j))) [0..<?n])"
    by (rule flush_loop_unroll [OF n order_refl])
  also have "\<dots> = Some (map (\<lambda>j. Clflush (p + of_nat (64 * j))) [0..<?n])"
    using ge by (subst flush_loop.simps) simp
  finally show ?thesis .
qed

lemma flush_buffer_result:
  assumes "unat sz + 64 \<le> 2 ^ 64"
  shows "flush_buffer buf sz =
         Some (map (\<lambda>j. Clflush (buf + of_nat (64 * j))) [0..<(unat sz + 63) div 64] @ [Mfence])"
  by (simp add: flush_buffer_def flush_loop_result [OF assms])

lemma unat_line_of: "unat (line_of a) = 64 * (unat a div 64)"
proof -
  have "a mod 64 \<le> a" by (simp add: word_le_nat_alt unat_mod)
  then have "unat (line_of a) = unat a - unat a mod 64"
    by (simp add: line_of_def unat_sub unat_mod)
  then show ?thesis by (simp add: minus_mod_eq_mult_div)
qed

lemma region_size_bound:
  assumes "unat buf mod 64 = 0" and "buf \<noteq> 0" and "unat buf + unat sz \<le> 2 ^ 64"
  shows "unat sz + 64 \<le> 2 ^ 64"
proof -
  have "0 < unat buf" using assms(2) by (simp add: unat_gt_0)
  then have "64 \<le> unat buf" using assms(1) by (auto simp: mod_eq_0_iff_dvd)
  then show ?thesis using assms(3) by simp
qed

lemma line_is_flushed:
  assumes al: "unat buf mod 64 = 0" and lo: "buf \<le> a" and hi: "unat a < unat buf + unat sz"
  shows "\<exists>j < (unat sz + 63) div 64. line_of (buf + of_nat (64 * j)) = line_of a"
proof -
  define j where "j = (unat a - unat buf) div 64"
  have ba: "unat buf \<le> unat a" using lo by (simp add: word_le_nat_alt)
  have a64: "unat a < 2 ^ 64" using unat_uint64_less .
  have j1: "64 * j \<le> unat a - unat buf" by (simp add: j_def)
  then have j2: "64 * j < 2 ^ 64" using a64 by simp
  have uj: "unat (of_nat (64 * j) :: uint64) = 64 * j" by (rule unat_word_of_nat64 [OF j2])
  have "unat buf + 64 * j < 2 ^ 64"
    using j1 ba a64 by simp
  then have "unat buf + unat (of_nat (64 * j) :: uint64) < 2 ^ LENGTH(64)"
    by (simp only: uj) simp
  then have "unat (buf + of_nat (64 * j)) = unat buf + unat (of_nat (64 * j) :: uint64)"
    by (rule unat_add_lem [THEN iffD1])
  then have us: "unat (buf + of_nat (64 * j)) = unat buf + 64 * j"
    by (simp only: uj)
  have jn: "j < (unat sz + 63) div 64"
    using hi ba by (simp add: j_def)
  obtain b where b: "unat buf = 64 * b" using al by (auto simp: mod_eq_0_iff_dvd)
  have "unat a div 64 = b + j"
    using ba by (simp add: j_def b)
  moreover have "unat (buf + of_nat (64 * j)) div 64 = b + j"
    by (simp only: us b) 
  ultimately have "unat (line_of (buf + of_nat (64 * j))) = unat (line_of a)"
    by (simp only: unat_line_of)
  then have "line_of (buf + of_nat (64 * j)) = line_of a"
    by (simp add: word_unat_eq_iff)
  then show ?thesis using jn by blast
qed

subsection \<open>The contents of the exported file\<close>

lemma write_rows_content:
  assumes "fs fname = Some old" and "i \<le> REPEAT"
  shows "write_rows fs fname results REPEAT i =
         fs(fname \<mapsto> old @ concat (map (\<lambda>j. csv_row j (results ! j)) [i..<REPEAT]))"
  using assms
proof (induction "REPEAT - i" arbitrary: i fs old)
  case 0
  then have "i = REPEAT" by simp
  then show ?case using 0 by (simp add: write_rows.simps fun_upd_idem)
next
  case (Suc n)
  then have i: "i < REPEAT" by simp
  let ?fs = "fprintf fs fname (csv_row i (results ! i))"
  have f: "?fs fname = Some (old @ csv_row i (results ! i))"
    using Suc.prems(1) by (simp add: fprintf_def)
  have "write_rows ?fs fname results REPEAT (Suc i) =
        ?fs(fname \<mapsto> (old @ csv_row i (results ! i)) @
              concat (map (\<lambda>j. csv_row j (results ! j)) [Suc i..<REPEAT]))"
    using Suc.hyps(2) i by (intro Suc.hyps(1) f) simp_all
  then show ?case
    using i by (subst write_rows.simps) (simp add: fprintf_def upt_conv_Cons)
qed

lemma write_csv_content:
  "write_csv fs fname REPEAT results =
   fs(fname \<mapsto> ''rep,cycles'' @ [newline] @
        concat (map (\<lambda>j. csv_row j (results ! j)) [0..<REPEAT]))"
proof -
  let ?fs = "fprintf (fopen_w fs fname) fname (''rep,cycles'' @ [newline])"
  have "?fs fname = Some (''rep,cycles'' @ [newline])"
    by (simp add: fprintf_def fopen_w_def)
  then have "write_rows ?fs fname results REPEAT 0 =
        ?fs(fname \<mapsto> (''rep,cycles'' @ [newline]) @
              concat (map (\<lambda>j. csv_row j (results ! j)) [0..<REPEAT]))"
    by (rule write_rows_content) simp
  then show ?thesis
    by (simp add: write_csv_def fprintf_def fopen_w_def)
qed

subsection \<open>Decimal numerals read back\<close>

lemma isdigit_digit_char: "d < 10 \<Longrightarrow> isdigit (digit_char d)"
  by (simp add: isdigit_def digit_char_def)

lemma digit_value_digit_char: "d < 10 \<Longrightarrow> digit_value (digit_char d) = d"
  by (simp add: digit_value_def digit_char_def)

lemma show_nat_nonempty: "show_nat n \<noteq> []"
  by (subst show_nat.simps) simp

lemma show_nat_digits: "list_all isdigit (show_nat n)"
proof (induction n rule: show_nat.induct)
  case (1 n)
  show ?case
  proof (cases "n < 10")
    case True
    then show ?thesis by (subst show_nat.simps) (simp add: isdigit_digit_char)
  next
    case False
    then show ?thesis
      using 1 by (subst show_nat.simps) (simp add: isdigit_digit_char)
  qed
qed

lemma read_nat_snoc: "read_nat (s @ [c]) = 10 * read_nat s + digit_value c"
  by (simp add: read_nat_def)

lemma read_nat_show_nat: "read_nat (show_nat n) = n"
proof (induction n rule: show_nat.induct)
  case (1 n)
  show ?case
  proof (cases "n < 10")
    case True
    then show ?thesis
      by (subst show_nat.simps) (simp add: read_nat_def digit_value_digit_char)
  next
    case False
    then show ?thesis
      using 1 by (subst show_nat.simps) (simp add: read_nat_snoc digit_value_digit_char)
  qed
qed

lemma read_field_show_nat: "read_field (show_nat n) = Some n"
  by (simp add: read_field_def show_nat_nonempty show_nat_digits read_nat_show_nat)

lemma isdigit_not_separator: "isdigit c \<Longrightarrow> c \<noteq> CHR '','' \<and> c \<noteq> newline"
  by (auto simp: isdigit_def newline_def)

lemma show_nat_no_separator:
  "CHR '','' \<notin> set (show_nat n)" "newline \<notin> set (show_nat n)"
  using show_nat_digits [of n] isdigit_not_separator by (auto simp: list_all_iff)

subsection \<open>Splitting at a separator\<close>

lemma split_on_nonempty: "split_on c s \<noteq> []"
  by (induction s) (auto split: list.splits)

lemma split_on_none: "c \<notin> set l \<Longrightarrow> split_on c l = [l]"
  by (induction l) auto

lemma split_on_first: "c \<notin> set l \<Longrightarrow> split_on c (l @ c # rest) = l # split_on c rest"
  by (induction l) auto

lemma read_row_csv:
  "read_row (show_nat i @ '','' @ show_nat v) = Some (i, v)"
proof -
  have "split_on CHR '','' (show_nat i @ CHR '','' # show_nat v) = [show_nat i, show_nat v]"
    by (simp add: split_on_first split_on_none show_nat_no_separator)
  then show ?thesis
    by (simp add: read_row_def read_field_show_nat)
qed

lemma split_rows:
  assumes "\<And>r. r \<in> set rows \<Longrightarrow> newline \<notin> set r"
  shows "split_on newline (concat (map (\<lambda>r. r @ [newline]) rows)) = rows @ [[]]"
  using assms by (induction rows) (simp_all add: split_on_first)

lemma read_rows_map:
  assumes "\<And>j. j \<in> set js \<Longrightarrow> read_row (g j) = Some (h j)"
  shows "read_rows (map g js) = Some (map h js)"
  using assms by (induction js) simp_all

lemma read_csv_written:
  "read_csv (''rep,cycles'' @ [newline] @ concat (map (\<lambda>j. csv_row j (results ! j)) [0..<REPEAT]))
   = Some (map (\<lambda>j. (j, unat (results ! j))) [0..<REPEAT])"
proof -
  let ?line = "\<lambda>j. show_nat j @ '','' @ show_nat (unat (results ! j))"
  let ?rows = "map ?line [0..<REPEAT]"
  have body: "concat (map (\<lambda>j. csv_row j (results ! j)) [0..<REPEAT])
              = concat (map (\<lambda>r. r @ [newline]) ?rows)"
    by (simp add: csv_row_def comp_def)
  have nl: "newline \<notin> set r" if "r \<in> set ?rows" for r
    using that show_nat_no_separator(2) by (auto simp: newline_def)
  have hdr: "newline \<notin> set ''rep,cycles''" by (simp add: newline_def)
  have "split_on newline (''rep,cycles'' @ newline # concat (map (\<lambda>r. r @ [newline]) ?rows))
        = ''rep,cycles'' # (?rows @ [[]])"
    using split_on_first [OF hdr] split_rows [of ?rows, OF nl] by simp
  moreover have "read_rows ?rows = Some (map (\<lambda>j. (j, unat (results ! j))) [0..<REPEAT])"
    by (rule read_rows_map) (rule read_row_csv)
  ultimately show ?thesis
    by (simp add: read_csv_def body)
qed

subsection \<open>The measurement loop\<close>

lemma measure_loop_content:
  assumes "rep \<le> REPEAT" and "length results = REPEAT"
  shows "measure_loop t_start t_end REPEAT rep results =
         take rep results @ map (\<lambda>r. t_end r - t_start r) [rep..<REPEAT]"
  using assms
proof (induction "REPEAT - rep" arbitrary: rep results)
  case 0
  then show ?case by (simp add: measure_loop.simps)
next
  case (Suc n)
  then have r: "rep < REPEAT" by simp
  let ?v = "t_end rep - t_start rep"
  have "measure_loop t_start t_end REPEAT (Suc rep) (results[rep := ?v]) =
        take (Suc rep) (results[rep := ?v]) @ map (\<lambda>r. t_end r - t_start r) [Suc rep..<REPEAT]"
    using Suc.hyps(2) Suc.prems r by (intro Suc.hyps(1)) simp_all
  moreover have "take (Suc rep) (results[rep := ?v]) = take rep results @ [?v]"
    using r Suc.prems(2) by (simp add: take_Suc_conv_app_nth)
  ultimately show ?case
    using r by (subst measure_loop.simps) (simp add: upt_conv_Cons)
qed

lemma measured_content:
  "measured env x =
   map (\<lambda>rep. rdtsc_end env x rep - rdtsc_start env x rep) [0..<repeat_for (size_of_exponent x)]"
  by (simp add: measured_def measure_loop_content)

lemma length_measured: "length (measured env x) = repeat_for (size_of_exponent x)"
  by (simp add: measured_content)

subsection \<open>One size\<close>

lemma tested_append: "tested (a @ b) = tested a @ tested b"
  by (induction a rule: tested.induct) simp_all

lemma csv_written_append: "csv_written (a @ b) = csv_written a @ csv_written b"
  by (induction a rule: csv_written.induct) simp_all

lemma run_size_ok:
  assumes "size_ok env x"
  shows "run_size env w x =
         Inr (w\<lparr>stdout := stdout w @
                  [Testing x (size_of_exponent x) (repeat_for (size_of_exponent x)),
                   Wrote_CSV (csv_name x (size_of_exponent x)),
                   Stats_line (size_of_exponent x)
                     (summarize (repeat_for (size_of_exponent x)) (measured env x))],
                files := write_csv (files w) (csv_name x (size_of_exponent x))
                           (repeat_for (size_of_exponent x)) (measured env x)\<rparr>)"
  using assms
  by (simp add: run_size_def size_ok_def allocations_ok_def Let_def measured_def)

lemma run_size_fopen_fails:
  assumes "allocations_ok env x" and "\<not> fopen_ok env (csv_name x (size_of_exponent x))"
  shows "run_size env w x =
         Inl (w\<lparr>stdout := stdout w @
                  [Testing x (size_of_exponent x) (repeat_for (size_of_exponent x))],
                stderr := stderr w @ [Failed_to_open (csv_name x (size_of_exponent x))]\<rparr>)"
  using assms
  by (simp add: run_size_def allocations_ok_def Let_def)

lemma run_size_Inr:
  assumes "run_size env w x = Inr w'"
  shows "size_ok env x"
  using assms
  by (simp add: run_size_def size_ok_def allocations_ok_def Let_def split: if_splits)

subsection \<open>The sweep\<close>

lemma sweep_ok:
  assumes "\<And>i. si \<le> i \<Longrightarrow> i \<le> end_idx \<Longrightarrow> size_ok env (exponents ! nat i)"
  shows "\<exists>w'. sweep env w si end_idx = Inr w'
    \<and> tested (stdout w') = tested (stdout w) @ map (\<lambda>i. exponents ! nat i) [si..end_idx]
    \<and> csv_written (stdout w') = csv_written (stdout w) @
         map (\<lambda>i. csv_name (exponents ! nat i) (size_of_exponent (exponents ! nat i)))
           [si..end_idx]
    \<and> stderr w' = stderr w"
  using assms
proof (induction env w si end_idx rule: sweep.induct)
  case (1 env w si end_idx)
  show ?case
  proof (cases "si \<le> end_idx")
    case False
    then show ?thesis by (subst sweep.simps) simp
  next
    case True
    let ?x = "exponents ! nat si"
    have ok: "size_ok env ?x" using "1.prems" True by simp
    note r = run_size_ok [OF ok, of w]
    obtain w1 where w1: "run_size env w ?x = Inr w1" using r by simp
    have "\<exists>w'. sweep env w1 (si + 1) end_idx = Inr w'
      \<and> tested (stdout w') = tested (stdout w1) @ map (\<lambda>i. exponents ! nat i) [si + 1..end_idx]
      \<and> csv_written (stdout w') = csv_written (stdout w1) @
           map (\<lambda>i. csv_name (exponents ! nat i) (size_of_exponent (exponents ! nat i)))
             [si + 1..end_idx]
      \<and> stderr w' = stderr w1"
      using "1.prems" by (intro "1.IH" [OF True w1]) simp_all
    then obtain w' where w': "sweep env w1 (si + 1) end_idx = Inr w'"
      "tested (stdout w') = tested (stdout w1) @ map (\<lambda>i. exponents ! nat i) [si + 1..end_idx]"
      "csv_written (stdout w') = csv_written (stdout w1) @
           map (\<lambda>i. csv_name (exponents ! nat i) (size_of_exponent (exponents ! nat i)))
             [si + 1..end_idx]"
      "stderr w' = stderr w1" by blast
    have s: "sweep env w si end_idx = Inr w'"
      using True w1 w'(1) by (subst sweep.simps) simp
    have u: "[si..end_idx] = si # [si + 1..end_idx]"
      using True by (simp add: upto_rec1)
    have o: "tested (stdout w1) = tested (stdout w) @ [?x]"
      "csv_written (stdout w1) = csv_written (stdout w) @ [csv_name ?x (size_of_exponent ?x)]"
      "stderr w1 = stderr w"
      using w1 r by (auto simp: tested_append csv_written_append)
    show ?thesis
      using s w'(2,3,4) o by (simp add: u)
  qed
qed

lemma sweep_fopen_fails:
  assumes "si \<le> end_idx" and "allocations_ok env (exponents ! nat si)"
    and "\<not> fopen_ok env (csv_name (exponents ! nat si) (size_of_exponent (exponents ! nat si)))"
  shows "sweep env w si end_idx =
         Inl (w\<lparr>stdout := stdout w @
                  [Testing (exponents ! nat si) (size_of_exponent (exponents ! nat si))
                     (repeat_for (size_of_exponent (exponents ! nat si)))],
                stderr := stderr w @
                  [Failed_to_open (csv_name (exponents ! nat si)
                     (size_of_exponent (exponents ! nat si)))]\<rparr>)"
  using assms(1) run_size_fopen_fails [OF assms(2,3), of w]
  by (subst sweep.simps) simp

lemma sweep_split:
  assumes "si \<le> k" and "k \<le> end_idx"
  shows "sweep env w si end_idx =
         (case sweep env w si (k - 1) of Inl w' \<Rightarrow> Inl w' | Inr w' \<Rightarrow> sweep env w' k end_idx)"
  using assms
proof (induction "nat (k - si)" arbitrary: si w)
  case 0
  then have "si = k" by simp
  then show ?case by (subst (2) sweep.simps) simp
next
  case (Suc n)
  then have lt: "si < k" by linarith
  have ih: "sweep env w1 (si + 1) end_idx =
        (case sweep env w1 (si + 1) (k - 1) of Inl w' \<Rightarrow> Inl w' | Inr w' \<Rightarrow> sweep env w' k end_idx)"
    for w1
    using Suc.hyps(2) Suc.prems lt by (intro Suc.hyps(1)) linarith+
  have a: "sweep env w si end_idx =
        (case run_size env w (exponents ! nat si) of
           Inl w' \<Rightarrow> Inl w' | Inr w' \<Rightarrow> sweep env w' (si + 1) end_idx)"
    using lt Suc.prems by (subst sweep.simps) simp
  have b: "sweep env w si (k - 1) =
        (case run_size env w (exponents ! nat si) of
           Inl w' \<Rightarrow> Inl w' | Inr w' \<Rightarrow> sweep env w' (si + 1) (k - 1))"
    using lt by (subst sweep.simps) simp
  show ?case
    by (simp add: a b ih split: sum.splits)
qed

lemma sweep_fails_at:
  assumes "si \<le> k" and "k \<le> end_idx"
    and "\<And>i. si \<le> i \<Longrightarrow> i < k \<Longrightarrow> size_ok env (exponents ! nat i)"
    and "allocations_ok env (exponents ! nat k)"
    and "\<not> fopen_ok env (csv_name (exponents ! nat k) (size_of_exponent (exponents ! nat k)))"
  shows "\<exists>w'. sweep env w si end_idx = Inl w'
    \<and> tested (stdout w') = tested (stdout w) @ map (\<lambda>i. exponents ! nat i) [si..k]
    \<and> csv_written (stdout w') = csv_written (stdout w) @
         map (\<lambda>i. csv_name (exponents ! nat i) (size_of_exponent (exponents ! nat i)))
           [si..k - 1]
    \<and> stderr w' = stderr w @
         [Failed_to_open (csv_name (exponents ! nat k) (size_of_exponent (exponents ! nat k)))]"
proof -
  have "\<And>i. si \<le> i \<Longrightarrow> i \<le> k - 1 \<Longrightarrow> size_ok env (exponents ! nat i)"
    using assms(3) by simp
  from sweep_ok [of si "k - 1" env w, OF this]
  obtain w1 where w1: "sweep env w si (k - 1) = Inr w1"
    "tested (stdout w1) = tested (stdout w) @ map (\<lambda>i. exponents ! nat i) [si..k - 1]"
    "csv_written (stdout w1) = csv_written (stdout w) @
         map (\<lambda>i. csv_name (exponents ! nat i) (size_of_exponent (exponents ! nat i)))
           [si..k - 1]"
    "stderr w1 = stderr w" by blast
  have u: "[si..k] = [si..k - 1] @ [k]"
    using assms(1) by (simp add: upto_rec2)
  show ?thesis
    using sweep_split [OF assms(1,2), of env w] w1
      sweep_fopen_fails [OF assms(2,4,5), of w1]
    by (simp add: u tested_append csv_written_append)
qed

subsection \<open>Finding the exponent\<close>

lemma exponents_nth:
  "exponents ! 0 = 6" "exponents ! 1 = 7" "exponents ! 2 = 8" "exponents ! 3 = 9"
  "exponents ! 4 = 10" "exponents ! 5 = 11" "exponents ! 6 = 12" "exponents ! 7 = 13"
  "exponents ! 8 = 14" "exponents ! 9 = 15" "exponents ! 10 = 16" "exponents ! 11 = 20"
  "exponents ! 12 = 21" "exponents ! Suc 0 = 7"
  by (simp_all add: exponents_def)

lemma n_sizes_13: "n_sizes = 13"
  by (simp add: n_sizes_def exponents_def)

lemma find_exponent_missing:
  assumes "x \<notin> set exponents"
  shows "find_exponent x 0 = - 1"
  using assms
  by (simp add: find_exponent.simps n_sizes_13 exponents_def)

lemma find_exponent_found:
  assumes "x \<in> set exponents"
  shows "0 \<le> find_exponent x 0 \<and> find_exponent x 0 < n_sizes
    \<and> exponents ! nat (find_exponent x 0) = x"
proof -
  from assms consider "x = 6" | "x = 7" | "x = 8" | "x = 9" | "x = 10" | "x = 11" | "x = 12"
    | "x = 13" | "x = 14" | "x = 15" | "x = 16" | "x = 20" | "x = 21"
    by (auto simp: exponents_def)
  then show ?thesis
    by cases (simp_all add: find_exponent.simps n_sizes_13 exponents_def)
qed

lemma all_indices: "map (\<lambda>i. exponents ! nat i) [0..n_sizes - 1] = exponents"
  by (simp add: n_sizes_13 exponents_def upto_rec1)

subsection \<open>The whole program\<close>

lemma main_unfold:
  assumes "select_range argv = (start_idx, end_idx)"
  shows "main env fs argv =
         (case sweep env \<lparr>stdout = (if mlockall_ok env then [Mlockall_OK] else []),
                          stderr = (if mlockall_ok env then [] else [Mlockall_warning]),
                          files = fs\<rparr> start_idx end_idx of
            Inl w \<Rightarrow> (1, w) | Inr w \<Rightarrow> (0, w))"
  using assms by (simp add: main_def Let_def)

lemma tested_start: "tested (if b then [Mlockall_OK] else []) = []"
  and csv_written_start: "csv_written (if b then [Mlockall_OK] else []) = []"
  by simp_all

lemma select_range_member:
  assumes "2 \<le> length argv" and "atoi (argv ! 1) = x" and "x \<in> set exponents"
  shows "\<exists>k. select_range argv = (k, k) \<and> 0 \<le> k \<and> k < n_sizes \<and> exponents ! nat k = x"
proof -
  have "x \<noteq> 0" using assms(3) by (auto simp: exponents_def)
  then show ?thesis
    using assms(1,2) find_exponent_found [OF assms(3)]
    by (simp add: select_range_def Let_def)
qed

lemma select_range_other:
  assumes "2 \<le> length argv" and "atoi (argv ! 1) = x" and "x \<notin> set exponents"
  shows "select_range argv = (0, n_sizes - 1)"
  using assms(1,2) find_exponent_missing [OF assms(3)]
  by (simp add: select_range_def Let_def)

lemma select_range_default: "length argv < 2 \<Longrightarrow> select_range argv = (0, n_sizes - 1)"
  by (simp add: select_range_def)

lemma digit_chars:
  "digit_char 0 = CHR ''0''" "digit_char 1 = CHR ''1''" "digit_char (Suc 0) = CHR ''1''"
  "digit_char 2 = CHR ''2''"
  "digit_char 3 = CHR ''3''" "digit_char 4 = CHR ''4''" "digit_char 5 = CHR ''5''"
  "digit_char 6 = CHR ''6''" "digit_char 7 = CHR ''7''" "digit_char 8 = CHR ''8''"
  "digit_char 9 = CHR ''9''"
  by code_simp+

lemma csv_name_12: "csv_name 12 (size_of_exponent 12) = ''memcpy_2pow12_4096b.csv''"
  by (simp add: csv_name_def size_of_exponent_def show_int_def show_nat.simps digit_chars)

lemma csv_name_6: "csv_name 6 (size_of_exponent 6) = ''memcpy_2pow6_64b.csv''"
  by (simp add: csv_name_def size_of_exponent_def show_int_def show_nat.simps digit_chars)

lemma csv_name_7: "csv_name 7 (size_of_exponent 7) = ''memcpy_2pow7_128b.csv''"
  by (simp add: csv_name_def size_of_exponent_def show_int_def show_nat.simps digit_chars)

lemma atoi_12: "atoi ''12'' = 12"
  by (simp add: atoi_def strtol_def int_of_long_def numeral_value_def isspace_def isdigit_def
      digit_value_def Let_def)

lemma atoi_5: "atoi ''5'' = 5"
  by (simp add: atoi_def strtol_def int_of_long_def numeral_value_def isspace_def isdigit_def
      digit_value_def Let_def)

lemma numeral_value_wrapping: "numeral_value ''4294967308'' = 4294967308"
  by (simp add: numeral_value_def isspace_def isdigit_def digit_value_def Let_def)

lemma atoi_wrapping: "atoi ''4294967308'' = 12"
  by (simp add: atoi_def strtol_def int_of_long_def numeral_value_wrapping)

lemma atoi_in_range:
  assumes "- (2 ^ 31) \<le> numeral_value s" and "numeral_value s < 2 ^ 31"
  shows "atoi s = numeral_value s"
proof -
  have "strtol s = numeral_value s" using assms by (simp add: strtol_def)
  moreover have "(numeral_value s + 2 ^ 31) mod 2 ^ 32 = numeral_value s + 2 ^ 31"
    using assms by (intro mod_pos_pos_trivial) simp_all
  ultimately show ?thesis by (simp add: int_of_long_def atoi_def)
qed

lemma repeat_for_table:
  "map (\<lambda>y. repeat_for (size_of_exponent y)) exponents =
   [200000, 200000, 200000, 200000, 200000, 200000, 200000, 50000, 50000, 50000, 50000, 8000, 2000]"
  by (simp add: exponents_def size_of_exponent_def repeat_for_def word_le_nat_alt)

lemma steady_env_ok: "size_ok steady_env x"
  by (simp add: size_ok_def allocations_ok_def steady_env_def)

lemma main_single_size:
  assumes "2 \<le> length argv" and "atoi (argv ! 1) = x" and mem: "x \<in> set exponents"
    and ok: "size_ok env x"
  shows "\<exists>w content. main env fs argv = (0, w)
              \<and> tested (stdout w) = [x]
              \<and> csv_written (stdout w) = [csv_name x (size_of_exponent x)]
              \<and> files w = fs(csv_name x (size_of_exponent x) \<mapsto> content)"
proof -
  let ?w0 = "\<lparr>stdout = (if mlockall_ok env then [Mlockall_OK] else []),
              stderr = (if mlockall_ok env then [] else [Mlockall_warning]),
              files = fs\<rparr>"
  from select_range_member [OF assms(1,2) mem]
  obtain k where k: "select_range argv = (k, k)" "exponents ! nat k = x" by blast
  have "sweep env ?w0 k k =
        (case run_size env ?w0 x of Inl w' \<Rightarrow> Inl w' | Inr w' \<Rightarrow> sweep env w' (k + 1) k)"
    by (subst sweep.simps) (simp add: k(2))
  also have "\<dots> = run_size env ?w0 x"
    by (simp add: run_size_ok [OF ok] sweep.simps [of _ _ "k + 1" k])
  finally have "sweep env ?w0 k k = run_size env ?w0 x" .
  then show ?thesis
    by (simp add: main_unfold [OF k(1)] run_size_ok [OF ok] write_csv_content)
      (rule exI, rule refl)
qed

lemma main_all_sizes:
  assumes "2 \<le> length argv" and "atoi (argv ! 1) = x" and nmem: "x \<notin> set exponents"
    and oks: "\<forall>y \<in> set exponents. size_ok env y"
  shows "\<exists>w. main env fs argv = (0, w)
              \<and> tested (stdout w) = exponents
              \<and> csv_written (stdout w) = map (\<lambda>y. csv_name y (size_of_exponent y)) exponents
              \<and> stderr w = (if mlockall_ok env then [] else [Mlockall_warning])"
proof -
  let ?w0 = "\<lparr>stdout = (if mlockall_ok env then [Mlockall_OK] else []),
              stderr = (if mlockall_ok env then [] else [Mlockall_warning]),
              files = fs\<rparr>"
  note r = select_range_other [OF assms(1,2) nmem]
  have "\<And>i. 0 \<le> i \<Longrightarrow> i \<le> n_sizes - 1 \<Longrightarrow> size_ok env (exponents ! nat i)"
    using oks by (simp add: n_sizes_def)
  from sweep_ok [of 0 "n_sizes - 1" env ?w0, OF this]
  obtain w where w: "sweep env ?w0 0 (n_sizes - 1) = Inr w"
    "tested (stdout w) = map (\<lambda>i. exponents ! nat i) [0..n_sizes - 1]"
    "csv_written (stdout w) =
       map (\<lambda>i. csv_name (exponents ! nat i) (size_of_exponent (exponents ! nat i)))
         [0..n_sizes - 1]"
    "stderr w = (if mlockall_ok env then [] else [Mlockall_warning])"
    by (auto simp: tested_start csv_written_start)
  have n: "map (\<lambda>i. csv_name (exponents ! nat i) (size_of_exponent (exponents ! nat i)))
             [0..n_sizes - 1]
           = map (\<lambda>y. csv_name y (size_of_exponent y)) (map (\<lambda>i. exponents ! nat i) [0..n_sizes - 1])"
    by (simp add: comp_def)
  show ?thesis
    using w by (simp add: main_unfold [OF r] n all_indices del: map_map)
qed

subsection \<open>The sample environments\<close>

lemma fopen_fails_env_fields:
  "mlockall_ok fopen_fails_env" "allocations_ok fopen_fails_env x"
  "\<not> fopen_ok fopen_fails_env fname"
  by (simp_all add: fopen_fails_env_def steady_env_def allocations_ok_def)

lemma second_fopen_fails_env_fields:
  "mlockall_ok second_fopen_fails_env" "allocations_ok second_fopen_fails_env x"
  "fopen_ok second_fopen_fails_env fname \<longleftrightarrow> fname \<noteq> ''memcpy_2pow7_128b.csv''"
  "malloc_sorted_ok second_fopen_fails_env x"
  by (simp_all add: second_fopen_fails_env_def steady_env_def allocations_ok_def)

lemma indexed_values:
  "map (\<lambda>j. (j, f (xs ! j))) [0..<length xs] = zip [0..<length xs] (map f xs)"
  by (rule nth_equalityI) simp_all

lemma written_file_reads_back:
  assumes "length results = REPEAT"
  shows "\<exists>content. write_csv fs fname REPEAT results fname = Some content
    \<and> read_csv content = Some (zip [0..<REPEAT] (map unat results))"
proof -
  let ?content = "''rep,cycles'' @ [newline] @
                  concat (map (\<lambda>j. csv_row j (results ! j)) [0..<REPEAT])"
  have a: "write_csv fs fname REPEAT results fname = Some ?content"
    by (simp add: write_csv_content)
  have z: "map (\<lambda>j. (j, unat (results ! j))) [0..<REPEAT] = zip [0..<REPEAT] (map unat results)"
    using indexed_values [of unat results] assms by simp
  have "read_csv ?content = Some (zip [0..<REPEAT] (map unat results))"
    using read_csv_written [of results REPEAT] by (simp only: z)
  then show ?thesis
    unfolding a by (intro exI conjI) (rule refl)
qed

subsection \<open>The exact threshold of the classifier\<close>

lemma powi2_neg: "1 \<le> p \<Longrightarrow> (2::rat) powi (1 - int p) = 1 / 2 ^ (p - 1)"
  by (cases p) (simp_all add: power_int_def nat_add_distrib field_simps)

lemma round_half_even_above:
  assumes "of_int M + 1 / 2 < r"
  shows "M + 1 \<le> round_half_even r"
proof (cases "M + 1 \<le> \<lfloor>r\<rfloor>")
  case True
  then show ?thesis using round_half_even_range(1) [of r] by linarith
next
  case False
  have "of_int M \<le> r" using assms by linarith
  then have "M \<le> \<lfloor>r\<rfloor>" by (simp add: le_floor_iff)
  with False have f: "\<lfloor>r\<rfloor> = M" by linarith
  then have "1 / 2 < r - of_int \<lfloor>r\<rfloor>" using assms by simp
  then show ?thesis using f by (simp add: round_half_even_def Let_def)
qed

lemma fp_round_above_half:
  assumes "1 \<le> x" and "x < 2" and "1 \<le> p" and "of_int M + 1 / 2 < x * 2 ^ (p - 1)"
  shows "(of_int M + 1) / 2 ^ (p - 1) \<le> fp_round p x"
proof -
  have fl: "floor_log2 x = 0"
    using assms(1,2) by (intro floor_log2_unique) simp_all
  have "0 < x" using assms(1) by linarith
  from fp_round_pos [OF this, of p]
  have e: "fp_round p x = of_int (round_half_even (x * 2 ^ (p - 1))) / 2 ^ (p - 1)"
    by (simp add: fl powi2_neg [OF assms(3)])
  have "M + 1 \<le> round_half_even (x * 2 ^ (p - 1))"
    using assms(4) by (rule round_half_even_above)
  then have "(of_int M + 1 :: rat) \<le> of_int (round_half_even (x * 2 ^ (p - 1)))"
    by (metis of_int_1 of_int_add of_int_le_iff)
  then show ?thesis
    unfolding e by (simp add: divide_right_mono)
qed

lemma fp_round_two: "ld 2 = 2" "dbl 2 = 2"
  by code_simp+

lemma dbl_mid: "dbl (3 / 2 + 1 / 2 ^ 53) = 3 / 2"
  by code_simp

lemma ld_mid: "ld (3 / 2 + 1 / 2 ^ 53 + 1 / 2 ^ 64) = 3 / 2 + 1 / 2 ^ 53"
  by code_simp

lemma dbl_gt_three_halves:
  assumes "0 \<le> y"
  shows "3 / 2 < dbl y \<longleftrightarrow> 3 / 2 + 1 / 2 ^ 53 < y"
proof
  assume "3 / 2 < dbl y"
  show "3 / 2 + 1 / 2 ^ 53 < y"
  proof (rule ccontr)
    assume "\<not> 3 / 2 + 1 / 2 ^ 53 < y"
    then have "y \<le> 3 / 2 + 1 / 2 ^ 53" by simp
    from fp_round_mono [OF assms this, of 53] have "dbl y \<le> 3 / 2"
      by (simp only: dbl_def [symmetric] dbl_mid)
    with \<open>3 / 2 < dbl y\<close> show False by simp
  qed
next
  assume h: "3 / 2 + 1 / 2 ^ 53 < y"
  show "3 / 2 < dbl y"
  proof (cases "y < 2")
    case True
    have "1 \<le> y" using h by (simp add: add_pos_pos less_imp_le order_trans [of 1 "3 / 2 + 1 / 2 ^ 53"])
    have "of_int (3 * 2 ^ 51) + 1 / 2 < y * 2 ^ (53 - 1)"
      using h by (simp add: field_simps)
    from fp_round_above_half [OF \<open>1 \<le> y\<close> True _ this]
    have "(of_int (3 * 2 ^ 51) + 1) / 2 ^ (53 - 1) \<le> dbl y"
      by (simp add: dbl_def)
    then show ?thesis by simp
  next
    case False
    then have "2 \<le> y" by simp
    from fp_round_mono [OF _ this, of 53] have "2 \<le> dbl y"
      by (simp add: dbl_def [symmetric] fp_round_two)
    then show ?thesis by simp
  qed
qed

lemma ld_gt_mid:
  assumes "0 \<le> q"
  shows "3 / 2 + 1 / 2 ^ 53 < ld q \<longleftrightarrow> 3 / 2 + 1 / 2 ^ 53 + 1 / 2 ^ 64 < q"
proof
  assume a: "3 / 2 + 1 / 2 ^ 53 < ld q"
  show "3 / 2 + 1 / 2 ^ 53 + 1 / 2 ^ 64 < q"
  proof (rule ccontr)
    assume "\<not> 3 / 2 + 1 / 2 ^ 53 + 1 / 2 ^ 64 < q"
    then have "q \<le> 3 / 2 + 1 / 2 ^ 53 + 1 / 2 ^ 64" by simp
    from fp_round_mono [OF assms this, of 64] have "ld q \<le> 3 / 2 + 1 / 2 ^ 53"
      by (simp only: ld_def [symmetric] ld_mid)
    with a show False by simp
  qed
next
  assume h: "3 / 2 + 1 / 2 ^ 53 + 1 / 2 ^ 64 < q"
  show "3 / 2 + 1 / 2 ^ 53 < ld q"
  proof (cases "q < 2")
    case True
    have "1 \<le> q" using h by simp
    have "of_int (3 * 2 ^ 62 + 2 ^ 10) + 1 / 2 < q * 2 ^ (64 - 1)"
      using h by (simp add: field_simps)
    from fp_round_above_half [OF \<open>1 \<le> q\<close> True _ this]
    have "(of_int (3 * 2 ^ 62 + 2 ^ 10) + 1) / 2 ^ (64 - 1) \<le> ld q"
      by (simp add: ld_def)
    then show ?thesis by simp
  next
    case False
    then have "2 \<le> q" by simp
    from fp_round_mono [OF _ this, of 64] have "2 \<le> ld q"
      by (simp add: ld_def [symmetric] fp_round_two)
    then show ?thesis by simp
  qed
qed

lemma fp_round_neg:
  assumes "x \<le> 0" and "1 \<le> p"
  shows "fp_round p x \<le> 0"
proof (cases "x = 0")
  case True then show ?thesis by (simp add: fp_round_def)
next
  case False
  then have x: "x < 0" using assms(1) by simp
  have "0 \<le> round_half_even (\<bar>x\<bar> / 2 powi (floor_log2 \<bar>x\<bar> - int p + 1))"
  proof -
    have "0 \<le> \<bar>x\<bar> / 2 powi (floor_log2 \<bar>x\<bar> - int p + 1)" by simp
    then have "0 \<le> \<lfloor>\<bar>x\<bar> / 2 powi (floor_log2 \<bar>x\<bar> - int p + 1)\<rfloor>" by simp
    then show ?thesis
      using round_half_even_range(1) [of "\<bar>x\<bar> / 2 powi (floor_log2 \<bar>x\<bar> - int p + 1)"] by linarith
  qed
  then have "0 \<le> (of_int (round_half_even (\<bar>x\<bar> / 2 powi (floor_log2 \<bar>x\<bar> - int p + 1))) :: rat)
               * 2 powi (floor_log2 \<bar>x\<bar> - int p + 1)"
    by simp
  then show ?thesis using x False by (simp add: fp_round_def Let_def del: of_int_0_le_iff)
qed

lemma speedup_exceeds_iff:
  assumes "ms \<noteq> 0"
  shows "3 / 2 < dbl (ld (mf / ms)) \<longleftrightarrow> 3 / 2 + 1 / 2 ^ 53 + 1 / 2 ^ 64 < mf / ms"
proof (cases "0 \<le> mf / ms")
  case True
  have "0 \<le> ld (mf / ms)" using True by (simp add: ld_def fp_round_nonneg)
  then show ?thesis using dbl_gt_three_halves ld_gt_mid [OF True] by simp
next
  case False
  then have n: "mf / ms \<le> 0" by simp
  then have "ld (mf / ms) \<le> 0" by (simp add: ld_def fp_round_neg)
  then have "dbl (ld (mf / ms)) \<le> 0" by (simp add: dbl_def fp_round_neg)
  moreover have "(0::rat) < 3 / 2 + 1 / 2 ^ 53 + 1 / 2 ^ 64" by simp
  then have "\<not> 3 / 2 + 1 / 2 ^ 53 + 1 / 2 ^ 64 < mf / ms"
    using n by linarith
  ultimately show ?thesis by simp
qed

subsection \<open>The error of one rounding\<close>









subsection \<open>The squared deviations in the design range\<close>







subsection \<open>The integer square root and the double-precision root\<close>





subsection \<open>The statistics in the design range\<close>





subsection \<open>Three samples: \<open>10 ^ 9\<close>, 1 and 1\<close>






section \<open>Claims\<close>

text \<open>
  C1, as the spec states it: OpenRow is reported exactly when the ratio of the two means is
  greater than 1.5. The program compares the long-double quotient converted to double. The
  means \<open>3 / 2 + 1 / 2 ^ 63\<close> and 1 are both long doubles, their quotient is greater than
  1.5, and the conversion to double rounds it to 1.5: the report is ClosedRow.
\<close>

theorem classify_above_threshold_counterexample:
  "ld (3 / 2 + 1 / 2 ^ 63) = 3 / 2 + 1 / 2 ^ 63
   \<and> ld 1 = 1
   \<and> (3 / 2 :: rat) < (3 / 2 + 1 / 2 ^ 63) / 1
   \<and> classify (3 / 2 + 1 / 2 ^ 63) 1 = ClosedRow"
  by code_simp

text \<open>
  C1, amended: the classifier computes the ratio of the two means in long double, converts
  it to double, and reports OpenRow exactly when that double is greater than 1.5, ClosedRow
  otherwise. For a nonzero second mean the ratio compared is \<open>dbl (ld (mf / ms))\<close>, and
  it exceeds \<open>3 / 2\<close> exactly when the exact quotient exceeds
  \<open>3 / 2 + 1 / 2 ^ 53 + 1 / 2 ^ 64\<close>: quotients above 1.5 by no more than that margin are
  reported ClosedRow. For a second mean of zero the report is OpenRow exactly when the
  first mean is positive. The boundary is exclusive: a quotient of at most \<open>3 / 2\<close> is
  reported ClosedRow, and one of at least the next double above \<open>3 / 2\<close> is reported
  OpenRow. The three values of the spec: \<open>classify 3 1\<close> is OpenRow, \<open>classify 1.1 1\<close>
  (1.1 as the nearest long double) and \<open>classify 1.5 1\<close> are ClosedRow.
\<close>

theorem classify_threshold:
  "(ms \<noteq> 0 \<longrightarrow> (classify mf ms = OpenRow \<longleftrightarrow> 3 / 2 < dbl (ld (mf / ms))))
   \<and> (ms \<noteq> 0 \<longrightarrow> (classify mf ms = ClosedRow \<longleftrightarrow> dbl (ld (mf / ms)) \<le> 3 / 2))
   \<and> (ms \<noteq> 0 \<longrightarrow> (classify mf ms = OpenRow \<longleftrightarrow> 3 / 2 + 1 / 2 ^ 53 + 1 / 2 ^ 64 < mf / ms))
   \<and> (ms = 0 \<longrightarrow> (classify mf ms = OpenRow \<longleftrightarrow> 0 < mf))
   \<and> (0 \<le> mf \<and> 0 < ms \<and> mf / ms \<le> 3 / 2 \<longrightarrow> classify mf ms = ClosedRow)
   \<and> (0 < ms \<and> 3 / 2 + 1 / 2 ^ 52 \<le> mf / ms \<longrightarrow> classify mf ms = OpenRow)
   \<and> classify 3 1 = OpenRow
   \<and> classify (ld (11 / 10)) 1 = ClosedRow
   \<and> classify (3 / 2) 1 = ClosedRow"
proof -
  have unfold: "classify mf ms = (if 3 / 2 < dbl (ld (mf / ms)) then OpenRow else ClosedRow)"
    if "ms \<noteq> 0"
    using that by (simp add: classify_def speedup_ratio_def ld_div_def)
  have c1: "ms \<noteq> 0 \<longrightarrow> (classify mf ms = OpenRow \<longleftrightarrow> 3 / 2 < dbl (ld (mf / ms)))"
    using unfold by simp
  have c2: "ms \<noteq> 0 \<longrightarrow> (classify mf ms = ClosedRow \<longleftrightarrow> dbl (ld (mf / ms)) \<le> 3 / 2)"
    using unfold by (simp add: not_less)
  have c1': "ms \<noteq> 0 \<longrightarrow> (classify mf ms = OpenRow \<longleftrightarrow> 3 / 2 + 1 / 2 ^ 53 + 1 / 2 ^ 64 < mf / ms)"
    using unfold speedup_exceeds_iff [of ms mf] by simp
  have c0: "ms = 0 \<longrightarrow> (classify mf ms = OpenRow \<longleftrightarrow> 0 < mf)"
    by (simp add: classify_def speedup_ratio_def ld_div_def)
  have c3: "0 \<le> mf \<and> 0 < ms \<and> mf / ms \<le> 3 / 2 \<longrightarrow> classify mf ms = ClosedRow"
  proof (intro impI, elim conjE)
    assume h: "0 \<le> mf" "0 < ms" "mf / ms \<le> 3 / 2"
    then have "0 \<le> mf / ms" by simp
    from ratio_le_threshold [OF this h(3)] show "classify mf ms = ClosedRow"
      using unfold h(2) by (simp add: not_less)
  qed
  have c4: "0 < ms \<and> 3 / 2 + 1 / 2 ^ 52 \<le> mf / ms \<longrightarrow> classify mf ms = OpenRow"
    using unfold ratio_ge_next [of "mf / ms"] by auto
  have c5: "classify 3 1 = OpenRow" by code_simp
  have c6: "classify (ld (11 / 10)) 1 = ClosedRow" by code_simp
  have c7: "classify (3 / 2) 1 = ClosedRow" by code_simp
  from c1 c2 c1' c0 c3 c4 c5 c6 c7 show ?thesis by (intro conjI)
qed

theorem classify_threshold_witness:
  "(1::rat) \<noteq> 0 \<and> (0::rat) \<le> 3 / 2 \<and> (0::rat) < 1 \<and> (3 / 2 :: rat) / 1 \<le> 3 / 2
   \<and> classify (3 / 2) 1 = ClosedRow
   \<and> (3 / 2 :: rat) + 1 / 2 ^ 52 \<le> 2 / 1 \<and> classify 2 1 = OpenRow
   \<and> (3 / 2 :: rat) + 1 / 2 ^ 53 + 1 / 2 ^ 64 < (3 / 2 + 1 / 2 ^ 53 + 1 / 2 ^ 63) / 1
   \<and> classify (3 / 2 + 1 / 2 ^ 53 + 1 / 2 ^ 63) 1 = OpenRow
   \<and> \<not> (3 / 2 :: rat) + 1 / 2 ^ 53 + 1 / 2 ^ 64 < (3 / 2 + 1 / 2 ^ 53 + 1 / 2 ^ 64) / 1
   \<and> classify (3 / 2 + 1 / 2 ^ 53 + 1 / 2 ^ 64) 1 = ClosedRow
   \<and> (0::rat) < 1 \<and> classify 1 0 = OpenRow"
proof -
  have a: "classify (3 / 2) 1 = ClosedRow" "classify 2 1 = OpenRow"
    using classify_threshold [of 1 "3 / 2"] classify_threshold [of 1 2]
    by simp_all
  have b: "classify (3 / 2 + 1 / 2 ^ 53 + 1 / 2 ^ 63) 1 = OpenRow"
    using classify_threshold [of 1 "3 / 2 + 1 / 2 ^ 53 + 1 / 2 ^ 63",
        THEN conjunct2, THEN conjunct2, THEN conjunct1]
    by simp
  have "classify (3 / 2 + 1 / 2 ^ 53 + 1 / 2 ^ 64) 1 \<noteq> OpenRow"
    using classify_threshold [of 1 "3 / 2 + 1 / 2 ^ 53 + 1 / 2 ^ 64",
        THEN conjunct2, THEN conjunct2, THEN conjunct1]
    by simp
  then have c: "classify (3 / 2 + 1 / 2 ^ 53 + 1 / 2 ^ 64) 1 = ClosedRow"
    by (cases "classify (3 / 2 + 1 / 2 ^ 53 + 1 / 2 ^ 64) 1") simp_all
  have d: "classify 1 0 = OpenRow"
    using classify_threshold [of 0 1, THEN conjunct2, THEN conjunct2, THEN conjunct2, THEN conjunct1]
    by simp
  show ?thesis using a b c d by simp
qed

text \<open>
  C2. For every non-empty sample series the reported median is read from the series sorted
  in ascending order: the array the code sorts is \<open>sort results\<close>; for an odd count the
  median is the middle element, and for an even count it is the element at zero-based index
  \<open>count / 2\<close>. It is always one of the samples, never an average of two.
\<close>

theorem median_is_sorted_middle:
  assumes "length results = REPEAT" and "0 < REPEAT"
  shows "qsort cmp_uint64 (take REPEAT results) = sort results
    \<and> (odd REPEAT \<longrightarrow> median (summarize REPEAT results) = sort results ! ((REPEAT - 1) div 2))
    \<and> (even REPEAT \<longrightarrow> median (summarize REPEAT results) = sort results ! (REPEAT div 2))
    \<and> median (summarize REPEAT results) \<in> set results"
proof -
  have a: "qsort cmp_uint64 (take REPEAT results) = sort results"
    using assms(1) by (simp add: qsort_sort)
  have m: "median (summarize REPEAT results) = sort results ! (REPEAT div 2)"
    by (rule summarize_fields(4) [OF assms(1)])
  have b: "odd REPEAT \<longrightarrow> median (summarize REPEAT results) = sort results ! ((REPEAT - 1) div 2)"
  proof
    assume "odd REPEAT"
    then have "(REPEAT - 1) div 2 = REPEAT div 2"
      by (auto elim!: oddE)
    then show "median (summarize REPEAT results) = sort results ! ((REPEAT - 1) div 2)"
      using m by simp
  qed
  have c: "median (summarize REPEAT results) \<in> set results"
    by (rule minv_maxv_mem(3) [OF assms])
  from a b c m show ?thesis by simp
qed

theorem median_is_sorted_middle_witness:
  "length [5, 1, 4, 2, 9 :: uint64] = 5 \<and> (0::nat) < 5
   \<and> median (summarize 5 [5, 1, 4, 2, 9]) = sort [5, 1, 4, 2, 9] ! 2
   \<and> sort [5, 1, 4, 2, 9 :: uint64] ! 2 = 4
   \<and> length [5, 1, 4, 2 :: uint64] = 4 \<and> (0::nat) < 4
   \<and> median (summarize 4 [5, 1, 4, 2]) = sort [5, 1, 4, 2] ! 2
   \<and> sort [5, 1, 4, 2 :: uint64] ! 2 = 4"
proof -
  have h5: "length [5, 1, 4, 2, 9 :: uint64] = 5" "(0::nat) < 5" by simp_all
  have h4: "length [5, 1, 4, 2 :: uint64] = 4" "(0::nat) < 4" by simp_all
  have "median (summarize 5 [5, 1, 4, 2, 9]) = sort [5, 1, 4, 2, 9] ! 2"
    using median_is_sorted_middle [OF h5] by simp
  moreover have "median (summarize 4 [5, 1, 4, 2]) = sort [5, 1, 4, 2] ! 2"
    using median_is_sorted_middle [OF h4] by simp
  moreover have "sort [5, 1, 4, 2, 9 :: uint64] ! 2 = 4" "sort [5, 1, 4, 2 :: uint64] ! 2 = 4"
    by (simp_all add: word_le_nat_alt)
  ultimately show ?thesis using h5 h4 by blast
qed

text \<open>
  C3, as the spec states it: for every series with at least one sample, min \<le> median \<le> max
  and min \<le> mean \<le> max. The mean is a long double: once the running sum passes
  \<open>2 ^ 64\<close> it no longer fits the 64-bit significand and is rounded at every addition. With
  three samples of \<open>2 ^ 64 - 2\<close> cycles the sum \<open>3 * 2 ^ 64 - 6\<close> is rounded to
  \<open>3 * 2 ^ 64 - 8\<close>, and the mean comes out as \<open>2 ^ 64 - 3\<close>, below the minimum. With the
  2000 trials of the largest size, each of \<open>2 ^ 54 + 1\<close> cycles, the first 1024 additions are
  exact and each of the remaining 976 is a tie that rounds down by one, so the mean comes out
  as \<open>2 ^ 54 + 131 / 256\<close>, again below the minimum.
\<close>

theorem mean_outside_range_counterexample:
  "length [18446744073709551614, 18446744073709551614, 18446744073709551614 :: uint64] = 3
   \<and> minv (summarize 3 [18446744073709551614, 18446744073709551614, 18446744073709551614])
       = 18446744073709551614
   \<and> mean (summarize 3 [18446744073709551614, 18446744073709551614, 18446744073709551614])
       = 18446744073709551613
   \<and> \<not> (ld_of_uint64 (minv (summarize 3
            [18446744073709551614, 18446744073709551614, 18446744073709551614]))
        \<le> mean (summarize 3 [18446744073709551614, 18446744073709551614, 18446744073709551614]))
   \<and> length slow_trials = 2000
   \<and> minv (summarize 2000 slow_trials) = 18014398509481985
   \<and> mean (summarize 2000 slow_trials) = 18014398509481984 + 131 / 256
   \<and> \<not> (ld_of_uint64 (minv (summarize 2000 slow_trials)) \<le> mean (summarize 2000 slow_trials))"
proof -
  let ?xs = "[18446744073709551614, 18446744073709551614, 18446744073709551614 :: uint64]"
  have l: "length ?xs = 3" by simp
  have mn: "minv (summarize 3 ?xs) = 18446744073709551614"
    by (simp add: summarize_fields(2) [OF l])
  have v: "ld_of_uint64 18446744073709551614 = 18446744073709551614"
    by (simp add: ld_of_uint64_def)
  have me: "mean (summarize 3 ?xs) = 18446744073709551613"
    using near_max_mean by (simp add: summarize_fields(5) [OF l] sum_loop_three v)
  have small: "\<not> (ld_of_uint64 (minv (summarize 3 ?xs)) \<le> mean (summarize 3 ?xs))"
    by (simp add: mn me v)
  have w: "ld_of_uint64 18014398509481985 = 18014398509481985"
    by (simp add: ld_of_uint64_def)
  have large: "\<not> (ld_of_uint64 (minv (summarize 2000 slow_trials))
                  \<le> mean (summarize 2000 slow_trials))"
    by (simp add: slow_trials_minv slow_trials_mean w)
  from l mn me small slow_trials_length slow_trials_minv slow_trials_mean large
  show ?thesis by (intro conjI)
qed

text \<open>
  C3, amended: for every series with at least one sample, the minimum and the maximum are the
  two ends of the sorted series and min \<le> median \<le> max; and min \<le> mean \<le> max whenever the
  sum of the samples is below \<open>2 ^ 64\<close>, which holds in particular for at most 200000
  samples of at most \<open>10 ^ 9\<close> cycles each.
\<close>

theorem summary_bounds:
  assumes "length results = REPEAT" and "0 < REPEAT"
  shows "minv (summarize REPEAT results) = sort results ! 0
    \<and> maxv (summarize REPEAT results) = sort results ! (REPEAT - 1)
    \<and> minv (summarize REPEAT results) \<le> median (summarize REPEAT results)
    \<and> median (summarize REPEAT results) \<le> maxv (summarize REPEAT results)
    \<and> (sum_list (map unat results) < 2 ^ 64 \<longrightarrow>
         ld_of_uint64 (minv (summarize REPEAT results)) \<le> mean (summarize REPEAT results)
         \<and> mean (summarize REPEAT results) \<le> ld_of_uint64 (maxv (summarize REPEAT results)))
    \<and> (REPEAT \<le> 200000 \<and> (\<forall>x \<in> set results. unat x \<le> 10 ^ 9) \<longrightarrow>
         ld_of_uint64 (minv (summarize REPEAT results)) \<le> mean (summarize REPEAT results)
         \<and> mean (summarize REPEAT results) \<le> ld_of_uint64 (maxv (summarize REPEAT results)))"
proof -
  let ?s = "summarize REPEAT results"
  have mean_ok: "ld_of_uint64 (minv ?s) \<le> mean ?s \<and> mean ?s \<le> ld_of_uint64 (maxv ?s)"
    if "sum_list (map unat results) < 2 ^ 64"
    using mean_in_range [OF assms that] by simp
  have design: "sum_list (map unat results) < 2 ^ 64"
    if "REPEAT \<le> 200000 \<and> (\<forall>x \<in> set results. unat x \<le> 10 ^ 9)"
  proof -
    have "sum_list (map unat results) \<le> 2 * 10 ^ 14"
      using that assms(1) by (intro design_range_sum) simp_all
    then show ?thesis by simp
  qed
  show ?thesis
    using summarize_fields(2,3) [OF assms(1)] median_in_range [OF assms] mean_ok design
    by blast
qed

theorem summary_bounds_witness:
  "length [5, 1, 4, 2 :: uint64] = 4 \<and> (0::nat) < 4
   \<and> sum_list (map unat [5, 1, 4, 2 :: uint64]) < 2 ^ 64
   \<and> (4::nat) \<le> 200000 \<and> list_all (\<lambda>x. unat x \<le> 10 ^ 9) [5, 1, 4, 2 :: uint64]
   \<and> minv (summarize 4 [5, 1, 4, 2]) \<le> median (summarize 4 [5, 1, 4, 2])
   \<and> median (summarize 4 [5, 1, 4, 2]) \<le> maxv (summarize 4 [5, 1, 4, 2])
   \<and> ld_of_uint64 (minv (summarize 4 [5, 1, 4, 2])) \<le> mean (summarize 4 [5, 1, 4, 2])
   \<and> mean (summarize 4 [5, 1, 4, 2]) \<le> ld_of_uint64 (maxv (summarize 4 [5, 1, 4, 2]))"
proof -
  have h: "length [5, 1, 4, 2 :: uint64] = 4" "(0::nat) < 4" by simp_all
  have s: "sum_list (map unat [5, 1, 4, 2 :: uint64]) < 2 ^ 64" by simp
  have d: "list_all (\<lambda>x. unat x \<le> 10 ^ 9) [5, 1, 4, 2 :: uint64]" by simp
  have b: "(4::nat) \<le> 200000 \<and> (\<forall>x \<in> set [5, 1, 4, 2 :: uint64]. unat x \<le> 10 ^ 9)" by simp
  from summary_bounds [OF h] s b
  have "minv (summarize 4 [5, 1, 4, 2]) \<le> median (summarize 4 [5, 1, 4, 2])
    \<and> median (summarize 4 [5, 1, 4, 2]) \<le> maxv (summarize 4 [5, 1, 4, 2])
    \<and> ld_of_uint64 (minv (summarize 4 [5, 1, 4, 2])) \<le> mean (summarize 4 [5, 1, 4, 2])
    \<and> mean (summarize 4 [5, 1, 4, 2]) \<le> ld_of_uint64 (maxv (summarize 4 [5, 1, 4, 2]))"
    by blast
  then show ?thesis using h s d by simp
qed

text \<open>
  C4. The summary is a function of the sample values alone. The one step of the code whose
  result the language leaves open is \<^verbatim>\<open>qsort\<close>, of which only the contract is fixed: whatever
  array a conforming \<^verbatim>\<open>qsort\<close> leaves, the six statistics computed from it are the same, and
  they are the value of \<open>summarize\<close>, which depends on nothing but the count and the samples.
\<close>

theorem summary_deterministic:
  assumes "qsort_result cmp_uint64 (take REPEAT results) sorted1"
    and "qsort_result cmp_uint64 (take REPEAT results) sorted2"
  shows "compute_stats REPEAT results sorted1 = compute_stats REPEAT results sorted2
    \<and> compute_stats REPEAT results sorted1 = summarize REPEAT results"
proof -
  have "sorted1 = sort (take REPEAT results)" and "sorted2 = sort (take REPEAT results)"
    using assms by (simp_all add: qsort_result_iff)
  then show ?thesis
    by (simp add: summarize_def qsort_sort)
qed

theorem summary_deterministic_witness:
  "qsort_result cmp_uint64 (take 4 [5, 1, 4, 2]) [1, 2, 4, 5]
   \<and> compute_stats 4 [5, 1, 4, 2] [1, 2, 4, 5] = summarize 4 [5, 1, 4, 2]"
proof -
  have h: "qsort_result cmp_uint64 (take 4 [5, 1, 4, 2]) [1, 2, 4, 5]"
    by (simp add: qsort_result_iff word_le_nat_alt)
  show ?thesis
    using summary_deterministic [OF h h] h by simp
qed

text \<open>
  C5. For a buffer whose base address is a multiple of 64 and whose size is positive,
  \<^verbatim>\<open>flush_buffer\<close> returns, having issued one \<^verbatim>\<open>clflush\<close> at each of the addresses
  \<open>buf, buf + 64, buf + 128, \<dots>\<close> below \<open>buf + sz\<close> and then one \<^verbatim>\<open>mfence\<close>, which is the
  last instruction. Every address of the region lies in a flushed line, the last byte's line
  included, whether or not the size is a multiple of 64. A buffer is an object of the
  program: its address is not null and the region \<open>[buf, buf + sz)\<close> lies inside the 64-bit
  address space.
\<close>

theorem flush_buffer_covers_region:
  assumes aligned: "unat buf mod 64 = 0" and nonnull: "buf \<noteq> 0"
    and nonempty: "0 < sz" and region: "unat buf + unat sz \<le> 2 ^ 64"
  shows "\<exists>issued. flush_buffer buf sz = Some (issued @ [Mfence])
    \<and> issued = map (\<lambda>j. Clflush (buf + of_nat (64 * j))) [0..<(unat sz + 63) div 64]
    \<and> (\<forall>a. buf \<le> a \<and> unat a < unat buf + unat sz \<longrightarrow> line_of a \<in> flushed_lines issued)
    \<and> line_of (buf + (sz - 1)) \<in> flushed_lines issued"
proof -
  let ?n = "(unat sz + 63) div 64"
  let ?issued = "map (\<lambda>j. Clflush (buf + of_nat (64 * j))) [0..<?n]"
  have r: "flush_buffer buf sz = Some (?issued @ [Mfence])"
    by (rule flush_buffer_result [OF region_size_bound [OF aligned nonnull region]])
  have cover: "line_of a \<in> flushed_lines ?issued"
    if "buf \<le> a" and "unat a < unat buf + unat sz" for a
  proof -
    from line_is_flushed [OF aligned that]
    obtain j where j: "j < ?n" "line_of (buf + of_nat (64 * j)) = line_of a" by blast
    have "Clflush (buf + of_nat (64 * j)) \<in> set ?issued"
      using j(1) by (simp only: set_map set_upt) (rule imageI, simp)
    then show ?thesis
      unfolding flushed_lines_def using j(2) by (metis (mono_tags, lifting) mem_Collect_eq)
  qed
  have last: "line_of (buf + (sz - 1)) \<in> flushed_lines ?issued"
  proof -
    have s1: "unat (sz - 1) = unat sz - 1"
      using nonempty by (simp add: unat_minus_one word_neq_0_conv)
    have sp: "0 < unat sz" using nonempty by (simp add: word_less_nat_alt)
    have "unat buf + unat (sz - 1) < 2 ^ LENGTH(64)"
      using region sp by (simp add: s1)
    then have u: "unat (buf + (sz - 1)) = unat buf + unat (sz - 1)"
      by (rule unat_add_lem [THEN iffD1])
    have "buf \<le> buf + (sz - 1)" by (simp add: word_le_nat_alt u)
    moreover have "unat (buf + (sz - 1)) < unat buf + unat sz"
      using sp by (simp add: u s1)
    ultimately show ?thesis by (rule cover)
  qed
  from r cover last show ?thesis by blast
qed

theorem flush_buffer_covers_region_witness:
  "unat (4096 :: uint64) mod 64 = 0 \<and> (4096 :: uint64) \<noteq> 0 \<and> (0 :: uint64) < 130
   \<and> unat (4096 :: uint64) + unat (130 :: uint64) \<le> 2 ^ 64
   \<and> flush_buffer 4096 130 = Some [Clflush 4096, Clflush 4160, Clflush 4224, Mfence]
   \<and> line_of (4096 + (130 - 1)) \<in> flushed_lines [Clflush 4096, Clflush 4160, Clflush 4224]"
proof -
  have h: "unat (4096 :: uint64) mod 64 = 0" "(4096 :: uint64) \<noteq> 0" "(0 :: uint64) < 130"
    "unat (4096 :: uint64) + unat (130 :: uint64) \<le> 2 ^ 64"
    by (simp_all add: word_less_nat_alt)
  have n: "[0..<3] = [0, 1, 2 :: nat]"
    by (simp add: upt_rec)
  from flush_buffer_covers_region [OF h]
  have "flush_buffer 4096 130 = Some [Clflush 4096, Clflush 4160, Clflush 4224, Mfence]
    \<and> line_of (4096 + (130 - 1)) \<in> flushed_lines [Clflush 4096, Clflush 4160, Clflush 4224]"
    by (simp add: n)
  then show ?thesis using h by simp
qed

text \<open>
  C6, as the spec states it: an argument whose value is one of the thirteen exponents selects
  that one size, and every argument whose value is not one of them runs all thirteen sizes.
  The program reads the argument with \<^verbatim>\<open>atoi\<close>, which keeps the low 32 bits of the value. The
  argument \<^verbatim>\<open>4294967308\<close> is the numeral of \<open>2 ^ 32 + 12\<close>, which is not one of the
  exponents; \<^verbatim>\<open>atoi\<close> returns 12 for it, and the run measures the size \<open>2 ^ 12\<close> alone and
  writes the one file \<^verbatim>\<open>memcpy_2pow12_4096b.csv\<close>.
\<close>

theorem selector_wraps_counterexample:
  "numeral_value ''4294967308'' = 4294967308
   \<and> 4294967308 \<notin> set exponents
   \<and> atoi ''4294967308'' = 12
   \<and> fst (main steady_env Map.empty [''./memtest_allsizes'', ''4294967308'']) = 0
   \<and> tested (stdout (snd (main steady_env Map.empty [''./memtest_allsizes'', ''4294967308'']))) = [12]
   \<and> csv_written (stdout (snd (main steady_env Map.empty [''./memtest_allsizes'', ''4294967308''])))
       = [''memcpy_2pow12_4096b.csv'']
   \<and> tested (stdout (snd (main steady_env Map.empty [''./memtest_allsizes'', ''4294967308''])))
       \<noteq> exponents"
proof -
  have "\<exists>w content. main steady_env Map.empty [''./memtest_allsizes'', ''4294967308''] = (0, w)
          \<and> tested (stdout w) = [12]
          \<and> csv_written (stdout w) = [csv_name 12 (size_of_exponent 12)]
          \<and> files w = Map.empty(csv_name 12 (size_of_exponent 12) \<mapsto> content)"
    by (rule main_single_size) (simp_all add: atoi_wrapping steady_env_ok exponents_def)
  then obtain w where
    "main steady_env Map.empty [''./memtest_allsizes'', ''4294967308''] = (0, w)"
    "tested (stdout w) = [12]" "csv_written (stdout w) = [csv_name 12 (size_of_exponent 12)]"
    by (elim exE conjE)
  moreover have "4294967308 \<notin> set exponents" "[12] \<noteq> exponents"
    by (simp_all add: exponents_def)
  ultimately show ?thesis
    by (simp add: numeral_value_wrapping atoi_wrapping csv_name_12)
qed

text \<open>
  C6, amended: let the program be started with at least one argument, in an environment where
  no allocation and no \<^verbatim>\<open>fopen\<close> fails, and let \<open>x\<close> be what \<^verbatim>\<open>atoi\<close> returns for the first
  argument: the value of its leading decimal numeral when that value fits an \<^verbatim>\<open>int\<close>, and
  otherwise that value saturated to the range of \<^verbatim>\<open>long\<close> and reduced to its low 32 bits. If
  \<open>x\<close> is one of the thirteen configured exponents, only the size \<open>2 ^ x\<close> is measured: the
  run ends with status 0, reports that one size, and writes that one CSV file and no other.
  If \<open>x\<close> is not one of them, all thirteen sizes are measured in order, the status is again
  0 and nothing but the \<^verbatim>\<open>mlockall\<close> warning, if any, reaches the error stream. Exponent 12
  is the size 4096, whose file is \<^verbatim>\<open>memcpy_2pow12_4096b.csv\<close>.
\<close>

theorem selector_chooses_sizes:
  assumes "2 \<le> length argv"
    and "\<forall>y \<in> set exponents. size_ok env y"
  shows "(atoi (argv ! 1) \<in> set exponents \<longrightarrow>
           (\<exists>w content. main env fs argv = (0, w)
              \<and> tested (stdout w) = [atoi (argv ! 1)]
              \<and> csv_written (stdout w)
                  = [csv_name (atoi (argv ! 1)) (size_of_exponent (atoi (argv ! 1)))]
              \<and> files w
                  = fs(csv_name (atoi (argv ! 1)) (size_of_exponent (atoi (argv ! 1))) \<mapsto> content)))
    \<and> (atoi (argv ! 1) \<notin> set exponents \<longrightarrow>
           (\<exists>w. main env fs argv = (0, w)
              \<and> tested (stdout w) = exponents
              \<and> csv_written (stdout w) = map (\<lambda>y. csv_name y (size_of_exponent y)) exponents
              \<and> stderr w = (if mlockall_ok env then [] else [Mlockall_warning])))
    \<and> (- (2 ^ 31) \<le> numeral_value (argv ! 1) \<and> numeral_value (argv ! 1) < 2 ^ 31
          \<longrightarrow> atoi (argv ! 1) = numeral_value (argv ! 1))
    \<and> atoi (argv ! 1) = int_of_long (max (- (2 ^ 63)) (min (2 ^ 63 - 1) (numeral_value (argv ! 1))))
    \<and> size_of_exponent 12 = 4096
    \<and> csv_name 12 (size_of_exponent 12) = ''memcpy_2pow12_4096b.csv''"
proof (intro conjI impI)
  assume "atoi (argv ! 1) \<in> set exponents"
  then show "\<exists>w content. main env fs argv = (0, w)
              \<and> tested (stdout w) = [atoi (argv ! 1)]
              \<and> csv_written (stdout w)
                  = [csv_name (atoi (argv ! 1)) (size_of_exponent (atoi (argv ! 1)))]
              \<and> files w
                  = fs(csv_name (atoi (argv ! 1)) (size_of_exponent (atoi (argv ! 1))) \<mapsto> content)"
    using assms by (intro main_single_size) simp_all
next
  assume "atoi (argv ! 1) \<notin> set exponents"
  then show "\<exists>w. main env fs argv = (0, w)
              \<and> tested (stdout w) = exponents
              \<and> csv_written (stdout w) = map (\<lambda>y. csv_name y (size_of_exponent y)) exponents
              \<and> stderr w = (if mlockall_ok env then [] else [Mlockall_warning])"
    using assms by (intro main_all_sizes) simp_all
next
  assume "- (2 ^ 31) \<le> numeral_value (argv ! 1) \<and> numeral_value (argv ! 1) < 2 ^ 31"
  then show "atoi (argv ! 1) = numeral_value (argv ! 1)"
    by (simp add: atoi_in_range)
next
  show "atoi (argv ! 1) = int_of_long (max (- (2 ^ 63)) (min (2 ^ 63 - 1) (numeral_value (argv ! 1))))"
    by (simp add: atoi_def strtol_def)
next
  show "size_of_exponent 12 = 4096" by (simp add: size_of_exponent_def)
next
  show "csv_name 12 (size_of_exponent 12) = ''memcpy_2pow12_4096b.csv''" by (rule csv_name_12)
qed

theorem selector_chooses_sizes_witness:
  "2 \<le> length [''./memtest_allsizes'', ''12''] \<and> atoi ([''./memtest_allsizes'', ''12''] ! 1) = 12
   \<and> list_all (size_ok steady_env) exponents \<and> 12 \<in> set exponents
   \<and> (\<exists>w content. main steady_env Map.empty [''./memtest_allsizes'', ''12''] = (0, w)
          \<and> tested (stdout w) = [12]
          \<and> csv_written (stdout w) = [''memcpy_2pow12_4096b.csv'']
          \<and> files w = [''memcpy_2pow12_4096b.csv'' \<mapsto> content])
   \<and> atoi ([''./memtest_allsizes'', ''5''] ! 1) = 5 \<and> 5 \<notin> set exponents
   \<and> (\<exists>w. main steady_env Map.empty [''./memtest_allsizes'', ''5''] = (0, w)
          \<and> tested (stdout w) = exponents)"
proof -
  have h1: "2 \<le> length [''./memtest_allsizes'', ''12'']"
    and h2: "atoi ([''./memtest_allsizes'', ''12''] ! 1) = 12"
    and h3: "\<forall>y \<in> set exponents. size_ok steady_env y"
    and h4: "12 \<in> set exponents"
    by (simp_all add: atoi_12 steady_env_ok exponents_def)
  have g1: "2 \<le> length [''./memtest_allsizes'', ''5'']"
    and g2: "atoi ([''./memtest_allsizes'', ''5''] ! 1) = 5"
    and g4: "5 \<notin> set exponents"
    by (simp_all add: atoi_5 exponents_def)
  have a: "\<exists>w content. main steady_env Map.empty [''./memtest_allsizes'', ''12''] = (0, w)
          \<and> tested (stdout w) = [12]
          \<and> csv_written (stdout w) = [''memcpy_2pow12_4096b.csv'']
          \<and> files w = [''memcpy_2pow12_4096b.csv'' \<mapsto> content]"
    using selector_chooses_sizes [OF h1 h3, of Map.empty, THEN conjunct1] h4
    by (simp add: csv_name_12 atoi_12)
  have b: "\<exists>w. main steady_env Map.empty [''./memtest_allsizes'', ''5''] = (0, w)
          \<and> tested (stdout w) = exponents"
    using selector_chooses_sizes [OF g1 h3, of Map.empty, THEN conjunct2, THEN conjunct1] g4
    by (simp add: atoi_5) blast
  show ?thesis
    using h1 h2 h4 g2 g4 a b by (simp add: list_all_iff steady_env_ok)
qed

text \<open>
  C7, as the spec states it: when the CSV file of one size cannot be opened, only that size
  is abandoned and the sweep goes on to the next size. In the code the failed \<^verbatim>\<open>fopen\<close> is
  followed by \<^verbatim>\<open>exit(1)\<close>. In a full sweep where no file can be opened, the process ends
  with status 1 at the first size, \<open>2 ^ 6\<close>: the second configured size, \<open>2 ^ 7\<close>, is
  never tested.
\<close>

theorem export_failure_continues_counterexample:
  "main fopen_fails_env Map.empty [''./memtest_allsizes''] =
     (1, \<lparr>stdout = [Mlockall_OK, Testing 6 64 200000],
          stderr = [Failed_to_open ''memcpy_2pow6_64b.csv''],
          files = Map.empty\<rparr>)
   \<and> tested [Mlockall_OK, Testing 6 64 200000] = [6]
   \<and> exponents ! 1 = 7"
proof -
  have r: "select_range [''./memtest_allsizes''] = (0, 12)"
    by (simp add: select_range_def n_sizes_13)
  have sz: "size_of_exponent 6 = 64" by (simp add: size_of_exponent_def)
  have rp: "repeat_for 64 = 200000" by (simp add: repeat_for_def word_le_nat_alt)
  have "sweep fopen_fails_env \<lparr>stdout = [Mlockall_OK], stderr = [], files = Map.empty\<rparr> 0 12 =
        Inl \<lparr>stdout = [Mlockall_OK, Testing 6 64 200000],
             stderr = [Failed_to_open ''memcpy_2pow6_64b.csv''],
             files = Map.empty\<rparr>"
    using sweep_fopen_fails [of 0 12 fopen_fails_env
        "\<lparr>stdout = [Mlockall_OK], stderr = [], files = Map.empty\<rparr>"]
      csv_name_6
    by (simp add: fopen_fails_env_fields exponents_nth sz rp)
  then show ?thesis
    by (simp add: main_unfold [OF r] fopen_fails_env_fields exponents_nth)
qed

text \<open>
  C7, amended: in a sweep, when the CSV file of a size cannot be opened (its buffers having
  been allocated, and every earlier size having completed), the process prints the
  diagnostic to the error stream and exits with status 1. The sizes tested are those up to
  and including the failing one, the files written are those of the earlier sizes, and no
  later size is measured.
\<close>

theorem export_failure_exits:
  assumes "select_range argv = (start_idx, end_idx)"
    and "start_idx \<le> k" and "k \<le> end_idx"
    and "\<forall>i. start_idx \<le> i \<and> i < k \<longrightarrow> size_ok env (exponents ! nat i)"
    and "allocations_ok env (exponents ! nat k)"
    and "\<not> fopen_ok env (csv_name (exponents ! nat k) (size_of_exponent (exponents ! nat k)))"
  shows "\<exists>w. main env fs argv = (1, w)
    \<and> tested (stdout w) = map (\<lambda>i. exponents ! nat i) [start_idx..k]
    \<and> csv_written (stdout w) =
         map (\<lambda>i. csv_name (exponents ! nat i) (size_of_exponent (exponents ! nat i)))
           [start_idx..k - 1]
    \<and> stderr w = (if mlockall_ok env then [] else [Mlockall_warning]) @
         [Failed_to_open (csv_name (exponents ! nat k) (size_of_exponent (exponents ! nat k)))]"
proof -
  let ?w0 = "\<lparr>stdout = (if mlockall_ok env then [Mlockall_OK] else []),
              stderr = (if mlockall_ok env then [] else [Mlockall_warning]),
              files = fs\<rparr>"
  have "\<And>i. start_idx \<le> i \<Longrightarrow> i < k \<Longrightarrow> size_ok env (exponents ! nat i)"
    using assms(4) by simp
  from sweep_fails_at [of start_idx k end_idx env ?w0, OF assms(2,3) this assms(5,6)]
  obtain w where w: "sweep env ?w0 start_idx end_idx = Inl w"
    "tested (stdout w) = tested (stdout ?w0) @ map (\<lambda>i. exponents ! nat i) [start_idx..k]"
    "csv_written (stdout w) = csv_written (stdout ?w0) @
         map (\<lambda>i. csv_name (exponents ! nat i) (size_of_exponent (exponents ! nat i)))
           [start_idx..k - 1]"
    "stderr w = stderr ?w0 @
         [Failed_to_open (csv_name (exponents ! nat k) (size_of_exponent (exponents ! nat k)))]"
    by blast
  show ?thesis
    using w by (simp add: main_unfold [OF assms(1)] tested_start csv_written_start)
qed

theorem export_failure_exits_witness:
  "select_range [''./memtest_allsizes''] = (0, 12) \<and> (0::int) \<le> 1 \<and> (1::int) \<le> 12
   \<and> size_ok second_fopen_fails_env (exponents ! nat 0)
   \<and> allocations_ok second_fopen_fails_env (exponents ! nat 1)
   \<and> \<not> fopen_ok second_fopen_fails_env
         (csv_name (exponents ! nat 1) (size_of_exponent (exponents ! nat 1)))
   \<and> (\<exists>w. main second_fopen_fails_env Map.empty [''./memtest_allsizes''] = (1, w)
          \<and> tested (stdout w) = [6, 7]
          \<and> csv_written (stdout w) = [''memcpy_2pow6_64b.csv'']
          \<and> stderr w = [Failed_to_open ''memcpy_2pow7_128b.csv''])"
proof -
  have r: "select_range [''./memtest_allsizes''] = (0, 12)"
    by (simp add: select_range_def n_sizes_13)
  have o: "(0::int) \<le> 1" "(1::int) \<le> 12" by simp_all
  have e: "exponents ! nat 0 = 6" "exponents ! nat 1 = 7"
    by (simp_all add: exponents_nth)
  have ok: "\<forall>i. (0::int) \<le> i \<and> i < 1 \<longrightarrow> size_ok second_fopen_fails_env (exponents ! nat i)"
  proof (intro allI impI)
    fix i :: int assume "0 \<le> i \<and> i < 1"
    then have "i = 0" by simp
    then show "size_ok second_fopen_fails_env (exponents ! nat i)"
      by (simp add: size_ok_def second_fopen_fails_env_fields exponents_nth csv_name_6)
  qed
  have al: "allocations_ok second_fopen_fails_env (exponents ! nat 1)"
    by (rule second_fopen_fails_env_fields)
  have nf: "\<not> fopen_ok second_fopen_fails_env
         (csv_name (exponents ! nat 1) (size_of_exponent (exponents ! nat 1)))"
    by (simp add: second_fopen_fails_env_fields exponents_nth csv_name_7)
  have u: "[0..1::int] = [0, 1]" "[0..(1::int) - 1] = [0]"
    by (simp_all add: upto_rec1)
  have "\<exists>w. main second_fopen_fails_env Map.empty [''./memtest_allsizes''] = (1, w)
          \<and> tested (stdout w) = [6, 7]
          \<and> csv_written (stdout w) = [''memcpy_2pow6_64b.csv'']
          \<and> stderr w = [Failed_to_open ''memcpy_2pow7_128b.csv'']"
    using export_failure_exits [OF r o ok al nf, of Map.empty]
    by (simp add: u exponents_nth csv_name_6 csv_name_7 second_fopen_fails_env_fields)
  moreover have "size_ok second_fopen_fails_env (exponents ! nat 0)"
    by (simp add: size_ok_def second_fopen_fails_env_fields exponents_nth csv_name_6)
  ultimately show ?thesis using r o al nf by blast
qed

text \<open>
  C8. For a series of \<open>N\<close> samples the exported file is the header line \<^verbatim>\<open>rep,cycles\<close>
  followed by exactly \<open>N\<close> newline-terminated rows, the \<open>i\<close>-th holding \<open>i\<close> and the
  \<open>i\<close>-th sample in decimal, in trial order. Reading the file back gives the \<open>N\<close> pairs of
  index and value, whose values are the original series. What the file held before does not
  matter: the export replaces it, a second export replaces the first, and no other file is
  touched.
\<close>

theorem csv_export_round_trip:
  assumes "length results = REPEAT"
  shows "write_csv fs fname REPEAT results fname =
           Some (''rep,cycles'' @ [newline] @
                 concat (map (\<lambda>i. show_nat i @ '','' @ show_nat (unat (results ! i)) @ [newline])
                           [0..<REPEAT]))
    \<and> (\<exists>content. write_csv fs fname REPEAT results fname = Some content
          \<and> read_csv content = Some (zip [0..<REPEAT] (map unat results)))
    \<and> length (zip [0..<REPEAT] (map unat results)) = REPEAT
    \<and> map (\<lambda>row. word_of_nat (snd row)) (zip [0..<REPEAT] (map unat results)) = results
    \<and> write_csv (fs(fname \<mapsto> stale)) fname REPEAT results = write_csv fs fname REPEAT results
    \<and> write_csv (write_csv fs fname REPEAT' earlier) fname REPEAT results
        = write_csv fs fname REPEAT results
    \<and> (\<forall>other. other \<noteq> fname \<longrightarrow> write_csv fs fname REPEAT results other = fs other)"
proof -
  let ?content = "''rep,cycles'' @ [newline] @
                  concat (map (\<lambda>j. csv_row j (results ! j)) [0..<REPEAT])"
  let ?rows = "zip [0..<REPEAT] (map unat results)"
  have a: "write_csv fs fname REPEAT results fname = Some ?content"
    by (simp add: write_csv_content)
  have ex: "\<exists>content. write_csv fs fname REPEAT results fname = Some content
          \<and> read_csv content = Some ?rows"
    by (rule written_file_reads_back [OF assms])
  have c: "length ?rows = REPEAT" using assms by simp
  have "map (\<lambda>row. word_of_nat (snd row)) ?rows = map word_of_nat (map snd ?rows)"
    by simp
  also have "\<dots> = map word_of_nat (map unat results)"
    using assms by (simp only: map_snd_zip length_upt length_map diff_zero)
  also have "\<dots> = results"
    by (simp add: comp_def)
  finally have e: "map (\<lambda>row. word_of_nat (snd row)) ?rows = results" .
  have f: "write_csv (fs(fname \<mapsto> stale)) fname REPEAT results = write_csv fs fname REPEAT results"
    by (simp add: write_csv_content)
  have g: "write_csv (write_csv fs fname REPEAT' earlier) fname REPEAT results
        = write_csv fs fname REPEAT results"
    by (simp add: write_csv_content)
  have h: "\<forall>other. other \<noteq> fname \<longrightarrow> write_csv fs fname REPEAT results other = fs other"
    by (simp add: write_csv_content)
  have a': "write_csv fs fname REPEAT results fname =
           Some (''rep,cycles'' @ [newline] @
                 concat (map (\<lambda>i. show_nat i @ '','' @ show_nat (unat (results ! i)) @ [newline])
                           [0..<REPEAT]))"
    using a by (simp add: csv_row_def)
  from a' ex c e f g h show ?thesis by (intro conjI)
qed

theorem csv_export_round_trip_witness:
  "length [10, 0, 123 :: uint64] = 3
   \<and> (\<exists>content. write_csv [''memcpy_2pow6_64b.csv'' \<mapsto> ''stale''] ''memcpy_2pow6_64b.csv'' 3
          [10, 0, 123] ''memcpy_2pow6_64b.csv'' = Some content
        \<and> read_csv content = Some [(0, 10), (1, 0), (2, 123)])"
proof -
  have h: "length [10, 0, 123 :: uint64] = 3" by simp
  have z: "zip [0..<3] (map unat [10, 0, 123 :: uint64]) = [(0, 10), (1, 0), (2, 123)]"
    by (simp add: upt_rec)
  have "\<exists>content. write_csv [''memcpy_2pow6_64b.csv'' \<mapsto> ''stale''] ''memcpy_2pow6_64b.csv'' 3
          [10, 0, 123] ''memcpy_2pow6_64b.csv'' = Some content
        \<and> read_csv content = Some (zip [0..<3] (map unat [10, 0, 123 :: uint64]))"
    by (rule csv_export_round_trip [OF h, THEN conjunct2, THEN conjunct1])
  then show ?thesis
    unfolding z using h by (intro conjI)
qed





text \<open>
  C10. The trial count is a function of the buffer size alone: 200000 up to 4096 bytes, 50000
  up to 65536, 20000 up to 262144, 8000 up to 1048576 and 2000 above; for the thirteen
  configured sizes it takes the values listed. For every size the series of samples has
  exactly that many entries, and when the size runs to its end the line announcing the size
  and the summary both carry that count and the CSV file holds exactly that many data rows,
  one per sample. The entry at each index below the count is the cycle difference the
  measurement loop stored for that trial. The statistics use the same count: the sum and the
  sum of squared deviations run over every entry of the series and are divided by the count,
  and the minimum, maximum and median are the entries at indices 0, count - 1 and count div 2
  of the sorted series, which has that many entries.
\<close>

theorem trial_count_fixed_by_size:
  "(sz \<le> 4096 \<longrightarrow> repeat_for sz = 200000)
   \<and> (4096 < sz \<and> sz \<le> 65536 \<longrightarrow> repeat_for sz = 50000)
   \<and> (65536 < sz \<and> sz \<le> 262144 \<longrightarrow> repeat_for sz = 20000)
   \<and> (262144 < sz \<and> sz \<le> 1048576 \<longrightarrow> repeat_for sz = 8000)
   \<and> (1048576 < sz \<longrightarrow> repeat_for sz = 2000)
   \<and> map (\<lambda>y. repeat_for (size_of_exponent y)) exponents =
       [200000, 200000, 200000, 200000, 200000, 200000, 200000,
        50000, 50000, 50000, 50000, 8000, 2000]
   \<and> length (measured env x) = repeat_for (size_of_exponent x)
   \<and> (size_ok env x \<longrightarrow>
        (\<exists>w' content.
           run_size env w x = Inr w'
           \<and> stdout w' = stdout w @
                [Testing x (size_of_exponent x) (repeat_for (size_of_exponent x)),
                 Wrote_CSV (csv_name x (size_of_exponent x)),
                 Stats_line (size_of_exponent x)
                   (summarize (repeat_for (size_of_exponent x)) (measured env x))]
           \<and> trials (summarize (repeat_for (size_of_exponent x)) (measured env x))
               = repeat_for (size_of_exponent x)
           \<and> files w' (csv_name x (size_of_exponent x)) = Some content
           \<and> read_csv content =
               Some (zip [0..<repeat_for (size_of_exponent x)] (map unat (measured env x)))
           \<and> length (zip [0..<repeat_for (size_of_exponent x)] (map unat (measured env x)))
               = repeat_for (size_of_exponent x)))
   \<and> measured env x =
       map (\<lambda>rep. rdtsc_end env x rep - rdtsc_start env x rep)
         [0..<repeat_for (size_of_exponent x)]
   \<and> mean (summarize (repeat_for (size_of_exponent x)) (measured env x)) =
       ld (foldl (\<lambda>a v. ld (a + ld_of_uint64 v)) 0 (measured env x)
           / of_nat (repeat_for (size_of_exponent x)))
   \<and> stddev (summarize (repeat_for (size_of_exponent x)) (measured env x)) =
       sqrt_double (dbl (ld (foldl
         (\<lambda>a v. ld (a + ld (ld (ld_of_uint64 v
                                   - mean (summarize (repeat_for (size_of_exponent x)) (measured env x)))
                              * ld (ld_of_uint64 v
                                   - mean (summarize (repeat_for (size_of_exponent x)) (measured env x))))))
         0 (measured env x) / of_nat (repeat_for (size_of_exponent x)))))
   \<and> length (sort (measured env x)) = repeat_for (size_of_exponent x)
   \<and> minv (summarize (repeat_for (size_of_exponent x)) (measured env x))
       = sort (measured env x) ! 0
   \<and> maxv (summarize (repeat_for (size_of_exponent x)) (measured env x))
       = sort (measured env x) ! (repeat_for (size_of_exponent x) - 1)
   \<and> median (summarize (repeat_for (size_of_exponent x)) (measured env x))
       = sort (measured env x) ! (repeat_for (size_of_exponent x) div 2)"
  (is "?T1 \<and> ?T2 \<and> ?T3 \<and> ?T4 \<and> ?T5 \<and> ?Tab \<and> ?Len \<and> ?Run \<and> ?Stats")
proof -
  let ?R = "repeat_for (size_of_exponent x)"
  let ?name = "csv_name x (size_of_exponent x)"
  have t: "(sz \<le> 4096 \<longrightarrow> repeat_for sz = 200000)
   \<and> (4096 < sz \<and> sz \<le> 65536 \<longrightarrow> repeat_for sz = 50000)
   \<and> (65536 < sz \<and> sz \<le> 262144 \<longrightarrow> repeat_for sz = 20000)
   \<and> (262144 < sz \<and> sz \<le> 1048576 \<longrightarrow> repeat_for sz = 8000)
   \<and> (1048576 < sz \<longrightarrow> repeat_for sz = 2000)"
    by (auto simp: repeat_for_def word_le_nat_alt word_less_nat_alt)
  have l: "length (measured env x) = ?R" by (rule length_measured)
  have r: "\<exists>w' content.
           run_size env w x = Inr w'
           \<and> stdout w' = stdout w @
                [Testing x (size_of_exponent x) ?R, Wrote_CSV ?name,
                 Stats_line (size_of_exponent x) (summarize ?R (measured env x))]
           \<and> trials (summarize ?R (measured env x)) = ?R
           \<and> files w' ?name = Some content
           \<and> read_csv content = Some (zip [0..<?R] (map unat (measured env x)))
           \<and> length (zip [0..<?R] (map unat (measured env x))) = ?R"
    if ok: "size_ok env x"
  proof -
    from written_file_reads_back [OF l, of "files w" ?name]
    obtain content where c: "write_csv (files w) ?name ?R (measured env x) ?name = Some content"
      "read_csv content = Some (zip [0..<?R] (map unat (measured env x)))"
      by blast
    have "length (zip [0..<?R] (map unat (measured env x))) = ?R"
      using l by simp
    then show ?thesis
      using c by (simp add: run_size_ok [OF ok] summarize_fields(1) [OF l])
  qed
  have s: "length (sort (measured env x)) = ?R" using l by simp
  from t repeat_for_table l r
  have old: "?T1 \<and> ?T2 \<and> ?T3 \<and> ?T4 \<and> ?T5 \<and> ?Tab \<and> ?Len \<and> ?Run" by blast
  from measured_content [of env x] summarize_computation [OF l] s summarize_fields(2,3,4) [OF l]
  have new: "?Stats" by (intro conjI)
  from old new show ?thesis by (elim conjE, intro conjI)
qed

theorem trial_count_fixed_by_size_witness:
  "(4096 :: uint64) \<le> 4096 \<and> repeat_for 4096 = 200000
   \<and> (4096 :: uint64) < 8192 \<and> (8192 :: uint64) \<le> 65536 \<and> repeat_for 8192 = 50000
   \<and> (65536 :: uint64) < 262144 \<and> (262144 :: uint64) \<le> 262144 \<and> repeat_for 262144 = 20000
   \<and> (262144 :: uint64) < 1048576 \<and> (1048576 :: uint64) \<le> 1048576 \<and> repeat_for 1048576 = 8000
   \<and> (1048576 :: uint64) < 2097152 \<and> repeat_for 2097152 = 2000
   \<and> size_ok steady_env 12
   \<and> size_of_exponent 12 = 4096
   \<and> length (measured steady_env 12) = 200000
   \<and> (\<exists>w' content.
         run_size steady_env \<lparr>stdout = [], stderr = [], files = Map.empty\<rparr> 12 = Inr w'
         \<and> trials (summarize 200000 (measured steady_env 12)) = 200000
         \<and> files w' ''memcpy_2pow12_4096b.csv'' = Some content
         \<and> read_csv content = Some (zip [0..<200000] (map unat (measured steady_env 12)))
         \<and> length (zip [0..<200000] (map unat (measured steady_env 12))) = 200000)
   \<and> measured steady_env 12 =
       map (\<lambda>rep. rdtsc_end steady_env 12 rep - rdtsc_start steady_env 12 rep) [0..<200000]
   \<and> mean (summarize 200000 (measured steady_env 12)) =
       ld (foldl (\<lambda>a v. ld (a + ld_of_uint64 v)) 0 (measured steady_env 12) / of_nat 200000)
   \<and> length (sort (measured steady_env 12)) = 200000
   \<and> minv (summarize 200000 (measured steady_env 12)) = sort (measured steady_env 12) ! 0
   \<and> maxv (summarize 200000 (measured steady_env 12))
       = sort (measured steady_env 12) ! (200000 - 1)
   \<and> median (summarize 200000 (measured steady_env 12))
       = sort (measured steady_env 12) ! (200000 div 2)"
proof -
  have c: "(4096 :: uint64) \<le> 4096" "(4096 :: uint64) < 8192" "(8192 :: uint64) \<le> 65536"
    "(65536 :: uint64) < 262144" "(262144 :: uint64) \<le> 262144"
    "(262144 :: uint64) < 1048576" "(1048576 :: uint64) \<le> 1048576"
    "(1048576 :: uint64) < 2097152"
    by (simp_all add: word_le_nat_alt word_less_nat_alt)
  have ok: "size_ok steady_env 12" by (rule steady_env_ok)
  have sz: "size_of_exponent 12 = 4096" by (simp add: size_of_exponent_def)
  note t = trial_count_fixed_by_size
  have v: "repeat_for 4096 = 200000" "repeat_for 8192 = 50000" "repeat_for 262144 = 20000"
    "repeat_for 1048576 = 8000" "repeat_for 2097152 = 2000"
    using t [of 4096, THEN conjunct1] c(1)
      t [of 8192, THEN conjunct2, THEN conjunct1] c(2,3)
      t [of 262144, THEN conjunct2, THEN conjunct2, THEN conjunct1] c(4,5)
      t [of 1048576, THEN conjunct2, THEN conjunct2, THEN conjunct2, THEN conjunct1] c(6,7)
      t [of 2097152, THEN conjunct2, THEN conjunct2, THEN conjunct2, THEN conjunct2,
         THEN conjunct1] c(8)
    by simp_all
  have r: "repeat_for (size_of_exponent 12) = 200000"
    by (simp only: sz v)
  note rest = t [of 0 steady_env 12 "\<lparr>stdout = [], stderr = [], files = Map.empty\<rparr>",
      THEN conjunct2, THEN conjunct2, THEN conjunct2, THEN conjunct2, THEN conjunct2,
      THEN conjunct2, unfolded r csv_name_12]
  have l: "length (measured steady_env 12) = 200000"
    by (rule rest [THEN conjunct1])
  note more = rest [THEN conjunct2, THEN conjunct2]
  note m1 = more [THEN conjunct1]
  note m2 = more [THEN conjunct2, THEN conjunct1]
  note m4 = more [THEN conjunct2, THEN conjunct2, THEN conjunct2, THEN conjunct1]
  note m5 = more [THEN conjunct2, THEN conjunct2, THEN conjunct2, THEN conjunct2, THEN conjunct1]
  note m6 = more [THEN conjunct2, THEN conjunct2, THEN conjunct2, THEN conjunct2, THEN conjunct2,
      THEN conjunct1]
  note m7 = more [THEN conjunct2, THEN conjunct2, THEN conjunct2, THEN conjunct2, THEN conjunct2,
      THEN conjunct2]
  from rest [THEN conjunct2, THEN conjunct1, rule_format, OF ok]
  obtain w' content where
    w: "run_size steady_env \<lparr>stdout = [], stderr = [], files = Map.empty\<rparr> 12 = Inr w'"
      "trials (summarize 200000 (measured steady_env 12)) = 200000"
      "files w' ''memcpy_2pow12_4096b.csv'' = Some content"
      "read_csv content = Some (zip [0..<200000] (map unat (measured steady_env 12)))"
      "length (zip [0..<200000] (map unat (measured steady_env 12))) = 200000"
    by (elim exE conjE)
  have e: "\<exists>w' content.
         run_size steady_env \<lparr>stdout = [], stderr = [], files = Map.empty\<rparr> 12 = Inr w'
         \<and> trials (summarize 200000 (measured steady_env 12)) = 200000
         \<and> files w' ''memcpy_2pow12_4096b.csv'' = Some content
         \<and> read_csv content = Some (zip [0..<200000] (map unat (measured steady_env 12)))
         \<and> length (zip [0..<200000] (map unat (measured steady_env 12))) = 200000"
    using w by (intro exI conjI)
  from c v ok sz l e m1 m2 m4 m5 m6 m7 show ?thesis by (intro conjI)
qed

end
